theory Spec2Isabelle
  imports Main
begin

section \<open>Strings\<close>

text \<open>
  JavaScript strings are modelled as \<^typ>\<open>string\<close>; a \<^typ>\<open>char\<close> stands for a code
  unit below 256 (Latin-1). The string primitives of the host that the path matcher calls
  (\<^verbatim>\<open>toLowerCase\<close>, \<^verbatim>\<open>trim\<close>, \<^verbatim>\<open>split\<close>, \<^verbatim>\<open>join\<close>, \<^verbatim>\<open>startsWith\<close>,
  \<^verbatim>\<open>endsWith\<close>) are written out on that alphabet.
\<close>

definition toLowerChar :: "char \<Rightarrow> char" where
  "toLowerChar c =
     (let n = (of_char c :: nat)
      in if (65 \<le> n \<and> n \<le> 90) \<or> (192 \<le> n \<and> n \<le> 222 \<and> n \<noteq> 215)
         then char_of (n + 32) else c)"

definition toLowerCase :: "string \<Rightarrow> string" where
  "toLowerCase s = map toLowerChar s"

definition isWhiteSpace :: "char \<Rightarrow> bool" where
  "isWhiteSpace c = ((of_char c :: nat) \<in> {9, 10, 11, 12, 13, 32, 160})"

definition trim :: "string \<Rightarrow> string" where
  "trim s = rev (dropWhile isWhiteSpace (rev (dropWhile isWhiteSpace s)))"

text \<open>\<^verbatim>\<open>s.split(sep)\<close> for a one-character separator: never the empty list.\<close>

fun split :: "char \<Rightarrow> string \<Rightarrow> string list" where
  "split sep [] = [[]]"
| "split sep (c # cs) =
     (if c = sep then [] # split sep cs
      else (case split sep cs of
              [] \<Rightarrow> [[c]]
            | w # ws \<Rightarrow> (c # w) # ws))"

fun join :: "string \<Rightarrow> string list \<Rightarrow> string" where
  "join sep [] = []"
| "join sep [x] = x"
| "join sep (x # y # ys) = x @ sep @ join sep (y # ys)"

definition startsWith :: "string \<Rightarrow> string \<Rightarrow> bool" where
  "startsWith s p = (take (length p) s = p)"

definition endsWith :: "string \<Rightarrow> string \<Rightarrow> bool" where
  "endsWith s p = (length p \<le> length s \<and> drop (length s - length p) s = p)"

text \<open>\<^verbatim>\<open>s.slice(0, -n)\<close> for \<open>n \<le> length s\<close>.\<close>

definition dropLast :: "nat \<Rightarrow> string \<Rightarrow> string" where
  "dropLast n s = take (length s - n) s"

section \<open>Errors\<close>

text \<open>
  Every \<^verbatim>\<open>throw new Error(...)\<close> of the path matcher is a constructor, named after
  its message; \<open>InvalidRegExp\<close> is the \<^verbatim>\<open>SyntaxError\<close> of the host's \<^verbatim>\<open>RegExp\<close>
  constructor, raised inside \<^verbatim>\<open>inBracketRange\<close>.
\<close>

datatype error =
    EmptySegment
  | UnknownWildcardSymbol string
  | MissingNameBeforeBracket string
  | InvalidBracketInParam string
  | InvalidParamSyntax string
  | UnknownStandaloneWildcard string
  | UnknownSuffix string
  | DuplicateParameterName string
  | InvalidRegExp string

section \<open>PathSegment (pathSegment.ts)\<close>

datatype segmentType = Static | Param | Wildcard

record PathSegmentData =
  segmentType :: segmentType
  name :: "string option"
  range :: "string option"
  optional :: bool
  single :: bool
  multi :: bool
  multiString :: bool

definition initialData :: PathSegmentData where
  "initialData =
     \<lparr>segmentType = Static, name = None, range = None, optional = False,
      single = False, multi = False, multiString = False\<rparr>"

definition isParamOrWildcard :: "PathSegmentData \<Rightarrow> bool" where
  "isParamOrWildcard d = (segmentType d = Param \<or> segmentType d = Wildcard)"

text \<open>The check that closes \<^verbatim>\<open>applySuffix\<close>: no flag set on a param or wildcard.\<close>

definition defaultToSingle :: "PathSegmentData \<Rightarrow> PathSegmentData" where
  "defaultToSingle d =
     (if isParamOrWildcard d \<and> \<not> optional d \<and> \<not> multi d \<and> \<not> multiString d \<and> \<not> single d
      then d\<lparr>single := True\<rparr> else d)"

definition applySuffix :: "PathSegmentData \<Rightarrow> string \<Rightarrow> error + PathSegmentData" where
  "applySuffix d suffix =
     (if suffix = ''+'' then Inr (defaultToSingle (d\<lparr>multiString := True\<rparr>))
      else if suffix = ''?'' then Inr (defaultToSingle (d\<lparr>optional := True\<rparr>))
      else if suffix = ''*'' then Inr (defaultToSingle (d\<lparr>single := True\<rparr>))
      else if suffix = ''**'' then Inr (defaultToSingle (d\<lparr>multi := True\<rparr>))
      else if suffix = '''' then
        Inr (defaultToSingle (if isParamOrWildcard d then d\<lparr>single := True\<rparr> else d))
      else Inl (UnknownSuffix suffix))"

definition isStandaloneWildcard :: "string \<Rightarrow> bool" where
  "isStandaloneWildcard s = (s = ''*'' \<or> s = ''**'' \<or> s = ''?'' \<or> s = ''+'')"

definition parseStandaloneWildcard :: "PathSegmentData \<Rightarrow> string \<Rightarrow> error + PathSegmentData" where
  "parseStandaloneWildcard d seg =
     (if seg = ''*'' then Inr (d\<lparr>single := True\<rparr>)
      else if seg = ''**'' then Inr (d\<lparr>multi := True\<rparr>)
      else if seg = ''?'' then Inr (d\<lparr>optional := True\<rparr>)
      else if seg = ''+'' then Inr (d\<lparr>multiString := True\<rparr>)
      else Inl (UnknownStandaloneWildcard seg))"

text \<open>
  The regular expression \<^verbatim>\<open>/^(\[[^\]]+\])(.*)$/\<close>: an opening bracket, one or more
  characters other than the closing bracket, the closing bracket, and a rest without line
  terminator (\<^verbatim>\<open>.\<close> does not match one and \<^verbatim>\<open>$\<close> is the end of input). The result is
  the bracket part and the rest.
\<close>

definition isLineTerminator :: "char \<Rightarrow> bool" where
  "isLineTerminator c = ((of_char c :: nat) \<in> {10, 13})"

definition bracketedRangeMatch :: "string \<Rightarrow> (string \<times> string) option" where
  "bracketedRangeMatch s =
     (case s of
        [] \<Rightarrow> None
      | c # r \<Rightarrow>
          (let body = takeWhile (\<lambda>x. x \<noteq> CHR '']'') r;
               rest = dropWhile (\<lambda>x. x \<noteq> CHR '']'') r
           in if c = CHR ''['' \<and> body \<noteq> [] \<and> rest \<noteq> [] \<and> \<not> (\<exists>x \<in> set (tl rest). isLineTerminator x)
              then Some (c # body @ '']'', tl rest) else None))"

text \<open>
  The regular expression \<^verbatim>\<open>/^(\*\*|\*|\+|\?)(\[[^\]]+\])(.*)$/\<close>: the alternatives of the
  first group are tried in their order, each followed by the bracketed range.
\<close>

fun firstAlternative :: "string list \<Rightarrow> string \<Rightarrow> (string \<times> string \<times> string) option" where
  "firstAlternative [] s = None"
| "firstAlternative (alt # alts) s =
     (if startsWith s alt then
        (case bracketedRangeMatch (drop (length alt) s) of
           Some (rangePart, suffix) \<Rightarrow> Some (alt, rangePart, suffix)
         | None \<Rightarrow> firstAlternative alts s)
      else firstAlternative alts s)"

definition wildcardWithRangeMatch :: "string \<Rightarrow> (string \<times> string \<times> string) option" where
  "wildcardWithRangeMatch s = firstAlternative [''**'', ''*'', ''+'', ''?''] s"

definition wildcardSymbolFlags :: "PathSegmentData \<Rightarrow> string \<Rightarrow> error + PathSegmentData" where
  "wildcardSymbolFlags d wildcardSymbol =
     (if wildcardSymbol = ''*'' then Inr (d\<lparr>single := True\<rparr>)
      else if wildcardSymbol = ''**'' then Inr (d\<lparr>multi := True\<rparr>)
      else if wildcardSymbol = ''+'' then Inr (d\<lparr>multiString := True\<rparr>)
      else if wildcardSymbol = ''?'' then Inr (d\<lparr>optional := True\<rparr>)
      else Inl (UnknownWildcardSymbol wildcardSymbol))"

definition parseParam :: "PathSegmentData \<Rightarrow> string \<Rightarrow> error + PathSegmentData" where
  "parseParam d core =
     (if CHR ''['' \<in> set core then
        (let namePart = takeWhile (\<lambda>x. x \<noteq> CHR ''['') core;
             fromBracket = dropWhile (\<lambda>x. x \<noteq> CHR ''['') core
         in if namePart = [] then Inl (MissingNameBeforeBracket core)
            else if CHR '']'' \<notin> set fromBracket then Inl (InvalidBracketInParam core)
            else
              (let rangePart = takeWhile (\<lambda>x. x \<noteq> CHR '']'') fromBracket @ '']'';
                   suffix = tl (dropWhile (\<lambda>x. x \<noteq> CHR '']'') fromBracket)
               in applySuffix (d\<lparr>name := Some namePart, range := Some rangePart\<rparr>) suffix))
      else
        (let (suffix, nm) =
               (if endsWith core ''**'' then (''**'', dropLast 2 core)
                else if endsWith core ''+'' then (''+'', dropLast 1 core)
                else if endsWith core ''?'' then (''?'', dropLast 1 core)
                else if endsWith core ''*'' then (''*'', dropLast 1 core)
                else ('''', core))
         in (case applySuffix d suffix of
               Inl e \<Rightarrow> Inl e
             | Inr d' \<Rightarrow> if nm = [] then Inl (InvalidParamSyntax core)
                         else Inr (d'\<lparr>name := Some nm\<rparr>))))"

definition parse :: "string \<Rightarrow> error + PathSegmentData" where
  "parse seg0 =
     (let seg = trim seg0
      in if seg = [] then Inl EmptySegment
         else if startsWith seg '':'' then
           parseParam (initialData\<lparr>segmentType := Param\<rparr>) (drop 1 seg)
         else
           (case wildcardWithRangeMatch seg of
              Some (wildcardSymbol, rangePart, suffix) \<Rightarrow>
                (case wildcardSymbolFlags
                        (initialData\<lparr>segmentType := Wildcard, range := Some rangePart\<rparr>)
                        wildcardSymbol of
                   Inl e \<Rightarrow> Inl e
                 | Inr d \<Rightarrow> applySuffix d suffix)
            | None \<Rightarrow>
                if isStandaloneWildcard seg then
                  parseStandaloneWildcard (initialData\<lparr>segmentType := Wildcard\<rparr>) seg
                else
                  (case bracketedRangeMatch seg of
                     Some (bracketPart, suffix) \<Rightarrow>
                       applySuffix
                         (initialData\<lparr>segmentType := Wildcard, range := Some bracketPart\<rparr>)
                         suffix
                   | None \<Rightarrow> Inr (initialData\<lparr>segmentType := Static\<rparr>))))"

text \<open>
  A \<^verbatim>\<open>PathSegment\<close> is its parsed data together with the raw text the constructor was
  given. A \<^verbatim>\<open>SegmentMatcher\<close> copies the fields of the data and keeps the segment, so it is
  the same record.
\<close>

record PathSegment = PathSegmentData +
  rawSegment :: string

definition new_PathSegment :: "string \<Rightarrow> error + PathSegment" where
  "new_PathSegment raw =
     (case parse raw of
        Inl e \<Rightarrow> Inl e
      | Inr d \<Rightarrow> Inr (PathSegmentData.extend d (PathSegment.fields raw)))"

definition getType :: "PathSegment \<Rightarrow> string" where
  "getType s =
     (if segmentType s = Static then ''static''
      else if optional s then ''optional''
      else if multiString s then ''multi-string''
      else if multi s then ''multi''
      else if single s then ''single''
      else ''static'')"

section \<open>The host's regular expressions\<close>

text \<open>
  \<^verbatim>\<open>inBracketRange\<close> builds \<^verbatim>\<open>new RegExp(`^[${body}]+$`, "i")\<close> and calls its
  \<^verbatim>\<open>test\<close>. The \<^verbatim>\<open>RegExp\<close> constructor belongs to the host, not to this repository, so
  the matcher takes it as a parameter: a function from the class body to the compiled
  expression's \<^verbatim>\<open>test\<close>, or \<open>None\<close> where the constructor throws a \<^verbatim>\<open>SyntaxError\<close>.
\<close>

type_synonym classRegExp = "string \<Rightarrow> (string \<Rightarrow> bool) option"

text \<open>
  A concrete host, after ECMAScript: \<^verbatim>\<open>RegExp\<close> on the
  fragment of class bodies built from literal characters, ranges \<^verbatim>\<open>lo-hi\<close> and a leading
  \<^verbatim>\<open>^\<close>. A range whose bounds are out of order is a \<^verbatim>\<open>SyntaxError\<close>; with the flag
  \<^verbatim>\<open>i\<close> a character belongs to the class when one of its case variants does. Bodies with a
  backslash or a closing bracket lie outside the fragment: \<open>hostRegExp\<close> rejects them, and it
  is only ever evaluated on bodies without them. It instantiates the parameter in the closed
  theorems; the general theorems hold for every host.
\<close>

definition toUpperChar :: "char \<Rightarrow> char" where
  "toUpperChar c =
     (let n = (of_char c :: nat)
      in if (97 \<le> n \<and> n \<le> 122) \<or> (224 \<le> n \<and> n \<le> 254 \<and> n \<noteq> 247)
         then char_of (n - 32) else c)"

fun classRanges :: "string \<Rightarrow> (char \<times> char) list option" where
  "classRanges [] = Some []"
| "classRanges [a] = Some [(a, a)]"
| "classRanges [a, b] = Some [(a, a), (b, b)]"
| "classRanges (a # b # c # rest) =
     (if b = CHR ''-'' then
        (if (of_char c :: nat) < of_char a then None
         else map_option (\<lambda>rs. (a, c) # rs) (classRanges rest))
      else map_option (\<lambda>rs. (a, a) # rs) (classRanges (b # c # rest)))"

definition inRanges :: "(char \<times> char) list \<Rightarrow> char \<Rightarrow> bool" where
  "inRanges rs c =
     (\<exists>(lo, hi) \<in> set rs. (of_char lo :: nat) \<le> of_char c \<and> (of_char c :: nat) \<le> of_char hi)"

definition classAccepts :: "bool \<Rightarrow> (char \<times> char) list \<Rightarrow> char \<Rightarrow> bool" where
  "classAccepts negated rs c =
     (let hit = (inRanges rs c \<or> inRanges rs (toLowerChar c) \<or> inRanges rs (toUpperChar c))
      in if negated then \<not> hit else hit)"

definition hostRegExp :: classRegExp where
  "hostRegExp body =
     (if CHR 0x5C \<in> set body \<or> CHR '']'' \<in> set body then None
      else
        (let negated = startsWith body ''^'';
             items = (if negated then drop 1 body else body)
         in (case classRanges items of
               None \<Rightarrow> None
             | Some rs \<Rightarrow> Some (\<lambda>v. v \<noteq> [] \<and> (\<forall>c \<in> set v. classAccepts negated rs c)))))"

section \<open>SegmentMatcher (segmentMatcher.ts)\<close>

datatype paramValue = Str string | StrList "string list"

record SegmentMatchResult =
  leftover :: "string list"
  paramName :: "string option"
  paramValue :: "paramValue option"
  wildcardCapture :: "string list option"

text \<open>A bare \<^verbatim>\<open>{ leftover }\<close>.\<close>

definition leftoverOnly :: "string list \<Rightarrow> SegmentMatchResult" where
  "leftoverOnly rest =
     \<lparr>leftover = rest, paramName = None, paramValue = None, wildcardCapture = None\<rparr>"

definition inBracketRange :: "classRegExp \<Rightarrow> string \<Rightarrow> string \<Rightarrow> error + bool" where
  "inBracketRange re v rangeExpr =
     (let body = dropLast 1 (drop 1 rangeExpr)
      in (case re body of
            None \<Rightarrow> Inl (InvalidRegExp body)
          | Some t \<Rightarrow> Inr (t v)))"

text \<open>
  The guard \<^verbatim>\<open>this.range && !this.inBracketRange(v, this.range)\<close>: \<open>Inr True\<close> when the
  segment is rejected. The expression is only built when a non-empty range is stored.
\<close>

definition outOfRange :: "classRegExp \<Rightarrow> PathSegment \<Rightarrow> string \<Rightarrow> error + bool" where
  "outOfRange re m v =
     (case range m of
        None \<Rightarrow> Inr False
      | Some r \<Rightarrow>
          if r = [] then Inr False
          else (case inBracketRange re v r of Inl e \<Rightarrow> Inl e | Inr b \<Rightarrow> Inr (\<not> b)))"

text \<open>The loop \<^verbatim>\<open>for (const seg of segments)\<close> of the multi matchers.\<close>

fun anyOutOfRange :: "classRegExp \<Rightarrow> PathSegment \<Rightarrow> string list \<Rightarrow> error + bool" where
  "anyOutOfRange re m [] = Inr False"
| "anyOutOfRange re m (v # vs) =
     (case outOfRange re m v of
        Inl e \<Rightarrow> Inl e
      | Inr True \<Rightarrow> Inr True
      | Inr False \<Rightarrow> anyOutOfRange re m vs)"

definition matchStatic :: "PathSegment \<Rightarrow> string list \<Rightarrow> error + SegmentMatchResult option" where
  "matchStatic m segments =
     (case segments of
        [] \<Rightarrow> Inr None
      | first # rest \<Rightarrow>
          if first = rawSegment m then Inr (Some (leftoverOnly rest)) else Inr None)"

definition matchSingleParam ::
  "classRegExp \<Rightarrow> PathSegment \<Rightarrow> string list \<Rightarrow> error + SegmentMatchResult option" where
  "matchSingleParam re m segments =
     (case segments of
        [] \<Rightarrow> Inr None
      | first # rest \<Rightarrow>
          (case outOfRange re m first of
             Inl e \<Rightarrow> Inl e
           | Inr True \<Rightarrow> Inr None
           | Inr False \<Rightarrow>
               Inr (Some \<lparr>leftover = rest, paramName = name m,
                          paramValue = Some (Str first), wildcardCapture = None\<rparr>)))"

definition matchMultiParam ::
  "classRegExp \<Rightarrow> PathSegment \<Rightarrow> string list \<Rightarrow> error + SegmentMatchResult option" where
  "matchMultiParam re m segments =
     (if segments = [] then Inr None
      else (case anyOutOfRange re m segments of
              Inl e \<Rightarrow> Inl e
            | Inr True \<Rightarrow> Inr None
            | Inr False \<Rightarrow>
                Inr (Some \<lparr>leftover = [], paramName = name m,
                           paramValue = Some (StrList segments), wildcardCapture = None\<rparr>)))"

definition matchMultiStringParam ::
  "classRegExp \<Rightarrow> PathSegment \<Rightarrow> string list \<Rightarrow> error + SegmentMatchResult option" where
  "matchMultiStringParam re m segments =
     (if segments = [] then Inr None
      else (case anyOutOfRange re m segments of
              Inl e \<Rightarrow> Inl e
            | Inr True \<Rightarrow> Inr None
            | Inr False \<Rightarrow>
                Inr (Some \<lparr>leftover = [], paramName = name m,
                           paramValue = Some (Str (join ''/'' segments)),
                           wildcardCapture = None\<rparr>)))"

definition matchOptionalParam ::
  "classRegExp \<Rightarrow> PathSegment \<Rightarrow> string list \<Rightarrow> error + SegmentMatchResult option" where
  "matchOptionalParam re m segments =
     (case segments of
        [] \<Rightarrow> Inr (Some (leftoverOnly []))
      | first # rest \<Rightarrow>
          (case outOfRange re m first of
             Inl e \<Rightarrow> Inl e
           | Inr True \<Rightarrow> Inr (Some (leftoverOnly segments))
           | Inr False \<Rightarrow>
               Inr (Some \<lparr>leftover = rest, paramName = name m,
                          paramValue = Some (Str first), wildcardCapture = None\<rparr>)))"

definition matchParam ::
  "classRegExp \<Rightarrow> PathSegment \<Rightarrow> string list \<Rightarrow> error + SegmentMatchResult option" where
  "matchParam re m segments =
     (if name m = None \<or> name m = Some [] then Inr None
      else if single m then matchSingleParam re m segments
      else if multi m then matchMultiParam re m segments
      else if multiString m then matchMultiStringParam re m segments
      else if optional m then matchOptionalParam re m segments
      else Inr None)"

definition matchSingleWildcard ::
  "classRegExp \<Rightarrow> PathSegment \<Rightarrow> string list \<Rightarrow> error + SegmentMatchResult option" where
  "matchSingleWildcard re m segments =
     (case segments of
        [] \<Rightarrow> Inr None
      | first # rest \<Rightarrow>
          (case outOfRange re m first of
             Inl e \<Rightarrow> Inl e
           | Inr True \<Rightarrow> Inr None
           | Inr False \<Rightarrow>
               Inr (Some \<lparr>leftover = rest, paramName = None, paramValue = None,
                          wildcardCapture = Some [first]\<rparr>)))"

definition matchMultiWildcard ::
  "classRegExp \<Rightarrow> PathSegment \<Rightarrow> string list \<Rightarrow> error + SegmentMatchResult option" where
  "matchMultiWildcard re m segments =
     (if segments = [] then Inr None
      else (case anyOutOfRange re m segments of
              Inl e \<Rightarrow> Inl e
            | Inr True \<Rightarrow> Inr None
            | Inr False \<Rightarrow>
                Inr (Some \<lparr>leftover = [], paramName = None, paramValue = None,
                           wildcardCapture = Some segments\<rparr>)))"

definition matchMultiStringWildcard ::
  "classRegExp \<Rightarrow> PathSegment \<Rightarrow> string list \<Rightarrow> error + SegmentMatchResult option" where
  "matchMultiStringWildcard re m segments =
     (if segments = [] then Inr None
      else (case anyOutOfRange re m segments of
              Inl e \<Rightarrow> Inl e
            | Inr True \<Rightarrow> Inr None
            | Inr False \<Rightarrow>
                Inr (Some \<lparr>leftover = [], paramName = None, paramValue = None,
                           wildcardCapture = Some [join ''/'' segments]\<rparr>)))"

definition matchOptionalWildcard ::
  "classRegExp \<Rightarrow> PathSegment \<Rightarrow> string list \<Rightarrow> error + SegmentMatchResult option" where
  "matchOptionalWildcard re m segments =
     (case segments of
        [] \<Rightarrow> Inr (Some (leftoverOnly []))
      | first # rest \<Rightarrow>
          (case outOfRange re m first of
             Inl e \<Rightarrow> Inl e
           | Inr True \<Rightarrow> Inr (Some (leftoverOnly segments))
           | Inr False \<Rightarrow>
               Inr (Some \<lparr>leftover = rest, paramName = None, paramValue = None,
                          wildcardCapture = Some [first]\<rparr>)))"

definition matchWildcard ::
  "classRegExp \<Rightarrow> PathSegment \<Rightarrow> string list \<Rightarrow> error + SegmentMatchResult option" where
  "matchWildcard re m segments =
     (if single m then matchSingleWildcard re m segments
      else if multi m then matchMultiWildcard re m segments
      else if multiString m then matchMultiStringWildcard re m segments
      else if optional m then matchOptionalWildcard re m segments
      else Inr None)"

text \<open>\<^verbatim>\<open>SegmentMatcher.match\<close>: \<open>Inr None\<close> is \<^verbatim>\<open>undefined\<close>, \<open>Inl\<close> a thrown error.\<close>

definition segmentMatch ::
  "classRegExp \<Rightarrow> PathSegment \<Rightarrow> string list \<Rightarrow> error + SegmentMatchResult option" where
  "segmentMatch re m uriSegments =
     (case segmentType m of
        Static \<Rightarrow> matchStatic m uriSegments
      | Param \<Rightarrow> matchParam re m uriSegments
      | Wildcard \<Rightarrow> matchWildcard re m uriSegments)"

section \<open>BasePathMatcher (path-match/mod.ts)\<close>

record PathMatchResult =
  path :: string
  params :: "string \<rightharpoonup> paramValue"
  wildcard :: "string list"
  matched :: bool

record BasePathMatcher =
  matchers :: "PathSegment list"
  pattern :: string
  isRoot :: bool

definition normalizePath :: "string \<Rightarrow> string" where
  "normalizePath p =
     CHR ''/'' # join ''/'' (filter (\<lambda>s. s \<noteq> []) (map trim (split CHR ''/'' (toLowerCase p))))"

definition getSegments :: "string \<Rightarrow> string list" where
  "getSegments p = drop 1 (split CHR ''/'' (normalizePath p))"

text \<open>\<^verbatim>\<open>xs.map(f)\<close> for an \<open>f\<close> that may throw: the first error ends the traversal.\<close>

fun mapE :: "('a \<Rightarrow> error + 'b) \<Rightarrow> 'a list \<Rightarrow> error + 'b list" where
  "mapE f [] = Inr []"
| "mapE f (x # xs) =
     (case f x of
        Inl e \<Rightarrow> Inl e
      | Inr y \<Rightarrow> (case mapE f xs of Inl e \<Rightarrow> Inl e | Inr ys \<Rightarrow> Inr (y # ys)))"

definition parsePattern :: "string \<Rightarrow> error + PathSegment list" where
  "parsePattern p =
     (if p = ''/'' then mapE new_PathSegment [p]
      else mapE new_PathSegment (getSegments p))"

text \<open>\<^verbatim>\<open>checkParams\<close>, with the set of names seen so far as an argument.\<close>

fun checkParamsFrom :: "string option set \<Rightarrow> PathSegment list \<Rightarrow> error + unit" where
  "checkParamsFrom paramNames [] = Inr ()"
| "checkParamsFrom paramNames (m # ms) =
     (if segmentType m = Param then
        (if name m \<in> paramNames then Inl (DuplicateParameterName (case name m of Some n \<Rightarrow> n | None \<Rightarrow> ''undefined''))
         else checkParamsFrom (insert (name m) paramNames) ms)
      else checkParamsFrom paramNames ms)"

definition checkParams :: "PathSegment list \<Rightarrow> error + unit" where
  "checkParams ms = checkParamsFrom {} ms"

definition new_BasePathMatcher :: "string \<Rightarrow> error + BasePathMatcher" where
  "new_BasePathMatcher p =
     (case parsePattern p of
        Inl e \<Rightarrow> Inl e
      | Inr segs \<Rightarrow>
          (let pat = normalizePath p
           in (case checkParams segs of
                 Inl e \<Rightarrow> Inl e
               | Inr u \<Rightarrow> Inr \<lparr>matchers = segs, pattern = pat, isRoot = (pat = ''/'')\<rparr>)))"

text \<open>
  The loop of \<^verbatim>\<open>match\<close> over the matchers. The result is the flag \<^verbatim>\<open>isMatched\<close> with
  the remaining segments, the params and the wildcard list at the point the loop ends or
  breaks.
\<close>

fun matchLoop ::
  "classRegExp \<Rightarrow> PathSegment list \<Rightarrow> string list \<Rightarrow> (string \<rightharpoonup> paramValue) \<Rightarrow> string list \<Rightarrow>
   error + (bool \<times> string list \<times> (string \<rightharpoonup> paramValue) \<times> string list)" where
  "matchLoop re [] remaining ps wc = Inr (True, remaining, ps, wc)"
| "matchLoop re (m # ms) remaining ps wc =
     (if remaining = [] \<and> optional m then matchLoop re ms remaining ps wc
      else if remaining = [] then Inr (False, remaining, ps, wc)
      else
        (case segmentMatch re m remaining of
           Inl e \<Rightarrow> Inl e
         | Inr None \<Rightarrow> Inr (False, remaining, ps, wc)
         | Inr (Some r) \<Rightarrow>
             (let ps' = (case (paramName r, paramValue r) of
                           (Some n, Some v) \<Rightarrow> if n = [] then ps else ps(n \<mapsto> v)
                         | _ \<Rightarrow> ps);
                  wc' = (case wildcardCapture r of Some w \<Rightarrow> wc @ w | None \<Rightarrow> wc)
              in matchLoop re ms (leftover r) ps' wc')))"

definition match :: "classRegExp \<Rightarrow> BasePathMatcher \<Rightarrow> string \<Rightarrow> error + PathMatchResult" where
  "match re M uri =
     (if isRoot M \<and> normalizePath uri = ''/'' then
        Inr \<lparr>path = ''/'', params = Map.empty, wildcard = [], matched = True\<rparr>
      else
        (let uriSegments = getSegments uri
         in (case matchLoop re (matchers M) uriSegments Map.empty [] of
               Inl e \<Rightarrow> Inl e
             | Inr (ok, remaining, ps, wc) \<Rightarrow>
                 (let isMatched = (ok \<and> \<not> (ok \<and> remaining \<noteq> []))
                  in Inr \<lparr>path = CHR ''/'' # join ''/'' uriSegments,
                          params = (if isMatched then ps else Map.empty),
                          wildcard = (if isMatched then wc else []),
                          matched = isMatched\<rparr>))))"


section \<open>Well-formedness of patterns\<close>

text \<open>The suffixes \<^verbatim>\<open>applySuffix\<close> accepts.\<close>

definition knownSuffix :: "string \<Rightarrow> bool" where
  "knownSuffix s = (s = [] \<or> s = ''+'' \<or> s = ''?'' \<or> s = ''*'' \<or> s = ''**'')"

text \<open>
  The shapes of a trimmed segment that pattern construction rejects: the empty segment; a
  colon with no name before the suffix or the bracket; a named parameter whose bracket is
  never closed; a suffix after a closed bracket that is none of the known ones.
\<close>

inductive malformed :: "string \<Rightarrow> bool" where
  emptySegment: "malformed []"
| missingName: "knownSuffix suf \<Longrightarrow> malformed (CHR '':'' # suf)"
| missingNameBeforeBracket: "malformed (CHR '':'' # CHR ''['' # rest)"
| unterminatedParamBracket:
    "CHR ''['' \<notin> set nm \<Longrightarrow> CHR '']'' \<notin> set rest \<Longrightarrow> malformed (CHR '':'' # nm @ CHR ''['' # rest)"
| unknownParamSuffix:
    "CHR ''['' \<notin> set nm \<Longrightarrow> CHR '']'' \<notin> set body \<Longrightarrow> \<not> knownSuffix suf \<Longrightarrow>
     malformed (CHR '':'' # nm @ CHR ''['' # body @ CHR '']'' # suf)"
| unknownWildcardSuffix:
    "knownSuffix lead \<Longrightarrow> body \<noteq> [] \<Longrightarrow> CHR '']'' \<notin> set body \<Longrightarrow>
     \<not> (\<exists>x \<in> set suf. isLineTerminator x) \<Longrightarrow> \<not> knownSuffix suf \<Longrightarrow>
     malformed (lead @ CHR ''['' # body @ CHR '']'' # suf)"

definition paramNames :: "PathSegment list \<Rightarrow> string option list" where
  "paramNames ms = map name (filter (\<lambda>m. segmentType m = Param) ms)"

text \<open>The host compiles the class body a matcher stores, if it stores one.\<close>

definition classCompiles :: "classRegExp \<Rightarrow> PathSegment \<Rightarrow> bool" where
  "classCompiles re m =
     (case range m of
        None \<Rightarrow> True
      | Some r \<Rightarrow> r = [] \<or> re (dropLast 1 (drop 1 r)) \<noteq> None)"

definition classesCompile :: "classRegExp \<Rightarrow> BasePathMatcher \<Rightarrow> bool" where
  "classesCompile re M = list_all (classCompiles re) (matchers M)"

section \<open>Concrete patterns\<close>

definition staticSegment :: "string \<Rightarrow> PathSegment" where
  "staticSegment raw =
     \<lparr>segmentType = Static, name = None, range = None, optional = False, single = False,
      multi = False, multiString = False, rawSegment = raw\<rparr>"

definition singleParam :: "string \<Rightarrow> PathSegment" where
  "singleParam nm =
     \<lparr>segmentType = Param, name = Some nm, range = None, optional = False, single = True,
      multi = False, multiString = False, rawSegment = CHR '':'' # nm\<rparr>"

text \<open>The matcher of \<^verbatim>\<open>/users/:id[a-z0-9]\<close>.\<close>

definition usersIdMatcher :: BasePathMatcher where
  "usersIdMatcher =
     \<lparr>matchers =
        [staticSegment ''users'',
         \<lparr>segmentType = Param, name = Some ''id'', range = Some ''[a-z0-9]'', optional = False,
          single = True, multi = False, multiString = False, rawSegment = '':id[a-z0-9]''\<rparr>],
      pattern = ''/users/:id[a-z0-9]'', isRoot = False\<rparr>"

text \<open>The matcher of \<^verbatim>\<open>/[z-a]\<close>.\<close>

definition reversedRangeMatcher :: BasePathMatcher where
  "reversedRangeMatcher =
     \<lparr>matchers =
        [\<lparr>segmentType = Wildcard, name = None, range = Some ''[z-a]'', optional = False,
          single = True, multi = False, multiString = False, rawSegment = ''[z-a]''\<rparr>],
      pattern = ''/[z-a]'', isRoot = False\<rparr>"

section \<open>BasePubSub (pubsub/mod.ts)\<close>

subsection \<open>Subscriptions and user code\<close>

text \<open>
  An args object is a mapping from keys to values; the values are those a match captures
  (a string or a list of strings), and user-supplied values are taken from the same type.
  The spread \<^verbatim>\<open>{...a, ...b}\<close> is \<open>a ++ b\<close>.
\<close>

type_synonym args = "string \<rightharpoonup> paramValue"

text \<open>
  The code a test, an application or a handler runs against the bus is a script: a sequence
  of calls of \<^verbatim>\<open>BasePubSub.sub\<close>, \<^verbatim>\<open>BasePubSub.unsub\<close> (by topic) and
  \<^verbatim>\<open>pubSub.pub\<close> (not awaited), reads of \<^verbatim>\<open>BasePubSub.inFlight\<close> and
  \<^verbatim>\<open>await tick()\<close>, ended by a return or a throw. A handler is a function with such a body;
  the flag says whether it is declared \<^verbatim>\<open>async\<close>. An \<^verbatim>\<open>async\<close> function always
  returns a promise, which a throw rejects; a throw in a function that is not \<^verbatim>\<open>async\<close>,
  before its first \<^verbatim>\<open>await\<close>, leaves the call as an exception.
\<close>

datatype script =
    Return
  | Throw
  | AwaitTick script
  | ReadInFlight script
  | Sub string handler bool script
  | Unsub string script
  | Pub string args script
and handler = Handler bool script

text \<open>
  A \<^verbatim>\<open>Subscription\<close> object. \<open>ident\<close> is the identity of the object: the registry is a
  \<^verbatim>\<open>Set\<close>, which compares objects by identity and iterates in insertion order.
\<close>

record Subscription =
  ident :: nat
  topic :: string
  matcher :: BasePathMatcher
  handler :: handler
  once :: bool
  matchedTopics :: "string \<rightharpoonup> args"

record SubscriptionMatch =
  subscription :: Subscription
  isMatch :: bool
  capturedParams :: "args option"
  capturedWildcard :: "string list option"

subsection \<open>filterSubs\<close>

definition subscriptionMatch ::
  "classRegExp \<Rightarrow> string \<Rightarrow> Subscription \<Rightarrow> error + SubscriptionMatch" where
  "subscriptionMatch re tp sub =
     (case matchedTopics sub tp of
        Some memo \<Rightarrow>
          Inr \<lparr>subscription = sub, isMatch = True, capturedParams = Some memo,
               capturedWildcard = None\<rparr>
      | None \<Rightarrow>
          (case match re (matcher sub) tp of
             Inl e \<Rightarrow> Inl e
           | Inr matchResult \<Rightarrow>
               Inr \<lparr>subscription = sub, isMatch = matched matchResult,
                    capturedParams = Some (params matchResult),
                    capturedWildcard = Some (wildcard matchResult)\<rparr>))"

definition filterSubs ::
  "classRegExp \<Rightarrow> Subscription list \<Rightarrow> string \<Rightarrow> error + SubscriptionMatch list" where
  "filterSubs re subs tp =
     (case mapE (subscriptionMatch re tp) subs of
        Inl e \<Rightarrow> Inl e
      | Inr ms \<Rightarrow> Inr (filter isMatch ms))"

text \<open>
  \<^verbatim>\<open>{ ...args, ...(m.params || {}), _: m.wildcard || [], topic }\<close>
\<close>

definition fullArgs :: "args \<Rightarrow> SubscriptionMatch \<Rightarrow> string \<Rightarrow> args" where
  "fullArgs a m tp =
     a ++ (case capturedParams m of Some ps \<Rightarrow> ps | None \<Rightarrow> Map.empty)
       ++ [''_'' \<mapsto> StrList (case capturedWildcard m of Some w \<Rightarrow> w | None \<Rightarrow> []),
           ''topic'' \<mapsto> Str tp]"

subsection \<open>The event loop\<close>

text \<open>
  \<^verbatim>\<open>tick()\<close> resolves from a \<^verbatim>\<open>setImmediate\<close> callback. The host runs these callbacks
  one at a time in the order they were scheduled, and runs every promise reaction a callback
  triggers before the next callback. So the state of the program between two callbacks is:
  the registry, the counter, the queue of continuations waiting for their tick, and the
  state of the promise of every call of \<^verbatim>\<open>pub\<close>; \<open>trace\<close> records what has happened.
\<close>

datatype rejection = MatchFailed error | HandlerThrew nat

text \<open>
  The promise of a call of \<^verbatim>\<open>pub\<close>: \<open>Started\<close> until the call resumes after its first
  tick, \<open>Waiting k\<close> while \<^verbatim>\<open>Promise.all\<close> waits for \<open>k\<close> of the callbacks, then fulfilled
  or rejected.
\<close>

datatype promiseState = Started | Waiting nat | Fulfilled | Rejected rejection

datatype owner = Main | Invocation nat nat

datatype task =
    PubResume nat string args
  | CallbackResume nat string args SubscriptionMatch
  | ScriptResume owner script

datatype event =
    PubCalled nat string
  | Observed owner int
  | Subscribed nat string
  | SubscribeFailed error
  | Selected nat "nat list"
  | Invoked nat nat args
  | Settled owner bool
  | ErrorLogged nat nat
  | Decremented nat
  | PubFulfilled nat
  | PubRejected nat rejection

record state =
  subscriptions :: "Subscription list"
  inflightCount :: int
  immediates :: "task list"
  promises :: "promiseState list"
  nextIdent :: nat
  trace :: "event list"

definition initialState :: state where
  "initialState =
     \<lparr>subscriptions = [], inflightCount = 0, immediates = [], promises = [], nextIdent = 0,
      trace = []\<rparr>"

definition emit :: "event \<Rightarrow> state \<Rightarrow> state" where
  "emit e s = s\<lparr>trace := trace s @ [e]\<rparr>"

definition setImmediate :: "task \<Rightarrow> state \<Rightarrow> state" where
  "setImmediate t s = s\<lparr>immediates := immediates s @ [t]\<rparr>"

text \<open>
  The promise of a script settles. The promise a handler returned carries
  \<^verbatim>\<open>.catch(BasePubSub.handleError)\<close>, so its rejection reaches \<^verbatim>\<open>console.error\<close>.
\<close>

definition settle :: "owner \<Rightarrow> bool \<Rightarrow> state \<Rightarrow> state" where
  "settle ow ok s =
     (case ow of
        Main \<Rightarrow> emit (Settled ow ok) s
      | Invocation pid sid \<Rightarrow>
          if ok then emit (Settled ow ok) s
          else emit (ErrorLogged pid sid) (emit (Settled ow ok) s))"

text \<open>
  A throw: an exception out of the call when the function is not \<^verbatim>\<open>async\<close> and has not
  awaited yet (\<open>sync\<close>), the rejection of the function's promise otherwise. The flag of the
  result says that an exception left the call.
\<close>

definition raise :: "owner \<Rightarrow> bool \<Rightarrow> state \<Rightarrow> state \<times> bool" where
  "raise ow sync s = (if sync then (s, True) else (settle ow False s, False))"

text \<open>\<^verbatim>\<open>BasePubSub.sub(topic, handler, once)\<close>, given the compiled matcher.\<close>

definition addSubscription :: "string \<Rightarrow> BasePathMatcher \<Rightarrow> handler \<Rightarrow> bool \<Rightarrow> state \<Rightarrow> state" where
  "addSubscription tp M h oc s =
     emit (Subscribed (nextIdent s) tp)
       (s\<lparr>subscriptions :=
             subscriptions s @
               [\<lparr>ident = nextIdent s, topic = tp, matcher = M, handler = h, once = oc,
                 matchedTopics = Map.empty\<rparr>],
           nextIdent := Suc (nextIdent s)\<rparr>)"

text \<open>\<^verbatim>\<open>BasePubSub.subscriptions.delete(subscription)\<close>\<close>

definition deleteSubscription :: "Subscription \<Rightarrow> state \<Rightarrow> state" where
  "deleteSubscription sub s =
     s\<lparr>subscriptions := filter (\<lambda>x. ident x \<noteq> ident sub) (subscriptions s)\<rparr>"

text \<open>
  The synchronous part of \<^verbatim>\<open>pub\<close>: the counter is incremented, \<^verbatim>\<open>tick()\<close> schedules the
  rest of the call, and the caller holds a pending promise, whose number is its index in
  \<open>promises\<close>.
\<close>

definition callPub :: "string \<Rightarrow> args \<Rightarrow> state \<Rightarrow> state" where
  "callPub tp a s =
     setImmediate (PubResume (length (promises s)) tp a)
       (emit (PubCalled (length (promises s)) tp)
          (s\<lparr>inflightCount := inflightCount s + 1, promises := promises s @ [Started]\<rparr>))"

text \<open>A script runs until its next \<^verbatim>\<open>await tick()\<close>, its return or its throw.\<close>

fun exec :: "classRegExp \<Rightarrow> owner \<Rightarrow> bool \<Rightarrow> script \<Rightarrow> state \<Rightarrow> state \<times> bool" where
  "exec re ow sync Return s = (settle ow True s, False)"
| "exec re ow sync Throw s = raise ow sync s"
| "exec re ow sync (AwaitTick rest) s = (setImmediate (ScriptResume ow rest) s, False)"
| "exec re ow sync (ReadInFlight rest) s =
     exec re ow sync rest (emit (Observed ow (inflightCount s)) s)"
| "exec re ow sync (Sub tp h oc rest) s =
     (case new_BasePathMatcher tp of
        Inl e \<Rightarrow> raise ow sync (emit (SubscribeFailed e) s)
      | Inr M \<Rightarrow> exec re ow sync rest (addSubscription tp M h oc s))"
| "exec re ow sync (Unsub tp rest) s =
     (case filterSubs re (subscriptions s) tp of
        Inl e \<Rightarrow> raise ow sync s
      | Inr ms \<Rightarrow> exec re ow sync rest (fold (\<lambda>m. deleteSubscription (subscription m)) ms s))"
| "exec re ow sync (Pub tp a rest) s = exec re ow sync rest (callPub tp a s)"

text \<open>
  \<^verbatim>\<open>Promise.all\<close> of a publish sees one of its callbacks fulfilled: when it was the last
  one, \<^verbatim>\<open>pub\<close> continues, decrements the counter and returns.
\<close>

definition promiseOf :: "state \<Rightarrow> nat \<Rightarrow> promiseState option" where
  "promiseOf s pid = (if pid < length (promises s) then Some (promises s ! pid) else None)"

definition setPromise :: "nat \<Rightarrow> promiseState \<Rightarrow> state \<Rightarrow> state" where
  "setPromise pid st s = s\<lparr>promises := (promises s)[pid := st]\<rparr>"

definition fulfil :: "nat \<Rightarrow> state \<Rightarrow> state" where
  "fulfil pid s =
     emit (PubFulfilled pid)
       (emit (Decremented pid)
          (setPromise pid Fulfilled (s\<lparr>inflightCount := inflightCount s - 1\<rparr>)))"

definition reject :: "nat \<Rightarrow> rejection \<Rightarrow> state \<Rightarrow> state" where
  "reject pid r s = emit (PubRejected pid r) (setPromise pid (Rejected r) s)"

definition callbackFulfilled :: "nat \<Rightarrow> state \<Rightarrow> state" where
  "callbackFulfilled pid s =
     (case promiseOf s pid of
        Some (Waiting k) \<Rightarrow> if k \<le> 1 then fulfil pid s else setPromise pid (Waiting (k - 1)) s
      | _ \<Rightarrow> s)"

definition callbackRejected :: "nat \<Rightarrow> nat \<Rightarrow> state \<Rightarrow> state" where
  "callbackRejected pid sid s =
     (case promiseOf s pid of
        Some (Waiting k) \<Rightarrow> reject pid (HandlerThrew sid) s
      | _ \<Rightarrow> s)"

text \<open>
  \<^verbatim>\<open>pub\<close> after its first tick: \<^verbatim>\<open>filterSubs\<close> reads the registry, every match starts
  its callback, which at once awaits its own tick, and \<^verbatim>\<open>Promise.all\<close> waits for them.
\<close>

definition resumePub :: "classRegExp \<Rightarrow> nat \<Rightarrow> string \<Rightarrow> args \<Rightarrow> state \<Rightarrow> state" where
  "resumePub re pid tp a s =
     (case filterSubs re (subscriptions s) tp of
        Inl e \<Rightarrow> reject pid (MatchFailed e) s
      | Inr ms \<Rightarrow>
          (let s1 = emit (Selected pid (map (\<lambda>m. ident (subscription m)) ms)) s;
               s2 = fold (\<lambda>m. setImmediate (CallbackResume pid tp a m)) ms s1
           in if ms = [] then fulfil pid s2 else setPromise pid (Waiting (length ms)) s2))"

text \<open>
  The callback after its tick: the handler is called with the composed args; when the call
  returns, \<^verbatim>\<open>.catch\<close> is attached and a \<^verbatim>\<open>once\<close> subscription is deleted; an exception out
  of the call ends the callback before that and rejects its promise.
\<close>

definition resumeCallback ::
  "classRegExp \<Rightarrow> nat \<Rightarrow> string \<Rightarrow> args \<Rightarrow> SubscriptionMatch \<Rightarrow> state \<Rightarrow> state" where
  "resumeCallback re pid tp a m s =
     (let sub = subscription m;
          s1 = emit (Invoked pid (ident sub) (fullArgs a m tp)) s;
          (s2, threw) =
            (case handler sub of
               Handler isAsync body \<Rightarrow> exec re (Invocation pid (ident sub)) (\<not> isAsync) body s1)
      in if threw then callbackRejected pid (ident sub) s2
         else callbackFulfilled pid (if once sub then deleteSubscription sub s2 else s2))"

definition process :: "classRegExp \<Rightarrow> task \<Rightarrow> state \<Rightarrow> state" where
  "process re t s =
     (case t of
        PubResume pid tp a \<Rightarrow> resumePub re pid tp a s
      | CallbackResume pid tp a m \<Rightarrow> resumeCallback re pid tp a m s
      | ScriptResume ow sc \<Rightarrow> fst (exec re ow False sc s))"

text \<open>One turn of the event loop: the oldest scheduled callback runs to completion.\<close>

definition step :: "classRegExp \<Rightarrow> state \<Rightarrow> state" where
  "step re s =
     (case immediates s of
        [] \<Rightarrow> s
      | t # ts \<Rightarrow> process re t (s\<lparr>immediates := ts\<rparr>))"

fun run :: "classRegExp \<Rightarrow> nat \<Rightarrow> state \<Rightarrow> state" where
  "run re 0 s = s"
| "run re (Suc n) s = run re n (step re s)"

text \<open>
  A program is the script of its main function, an \<^verbatim>\<open>async\<close> function as the tests are,
  started on the fresh registry.
\<close>

definition start :: "classRegExp \<Rightarrow> script \<Rightarrow> state" where
  "start re main = fst (exec re Main False main initialState)"

subsection \<open>Handlers that return an awaitable\<close>

text \<open>
  Every handler the script subscribes, at any depth, is an \<^verbatim>\<open>async\<close> function: each of
  its calls returns a promise.
\<close>

fun asyncOnly :: "script \<Rightarrow> bool" and asyncHandler :: "handler \<Rightarrow> bool" where
  "asyncOnly Return = True"
| "asyncOnly Throw = True"
| "asyncOnly (AwaitTick rest) = asyncOnly rest"
| "asyncOnly (ReadInFlight rest) = asyncOnly rest"
| "asyncOnly (Sub tp h oc rest) = (asyncHandler h \<and> asyncOnly rest)"
| "asyncOnly (Unsub tp rest) = asyncOnly rest"
| "asyncOnly (Pub tp a rest) = asyncOnly rest"
| "asyncHandler (Handler isAsync body) = (isAsync \<and> asyncOnly body)"

subsection \<open>Counting publishes and queued continuations\<close>

text \<open>The calls of \<^verbatim>\<open>pub\<close> that have not decremented the counter.\<close>

definition unfulfilled :: "promiseState list \<Rightarrow> nat" where
  "unfulfilled ps = length (filter (\<lambda>p. p \<noteq> Fulfilled) ps)"

text \<open>The calls of \<^verbatim>\<open>pub\<close> between their increment and their return or failure.\<close>

fun inProgress :: "promiseState \<Rightarrow> bool" where
  "inProgress Started = True"
| "inProgress (Waiting k) = True"
| "inProgress Fulfilled = False"
| "inProgress (Rejected r) = False"

fun isResumeOf :: "nat \<Rightarrow> task \<Rightarrow> bool" where
  "isResumeOf pid (PubResume p tp a) = (p = pid)"
| "isResumeOf pid (CallbackResume p tp a m) = False"
| "isResumeOf pid (ScriptResume ow sc) = False"

fun isCallbackOf :: "nat \<Rightarrow> task \<Rightarrow> bool" where
  "isCallbackOf pid (PubResume p tp a) = False"
| "isCallbackOf pid (CallbackResume p tp a m) = (p = pid)"
| "isCallbackOf pid (ScriptResume ow sc) = False"

definition resumes :: "nat \<Rightarrow> task list \<Rightarrow> nat" where
  "resumes pid q = length (filter (isResumeOf pid) q)"

definition callbacks :: "nat \<Rightarrow> task list \<Rightarrow> nat" where
  "callbacks pid q = length (filter (isCallbackOf pid) q)"

text \<open>The handler of subscription \<open>sid\<close> has been called for publish \<open>pid\<close>.\<close>

definition invoked :: "state \<Rightarrow> nat \<Rightarrow> nat \<Rightarrow> bool" where
  "invoked s pid sid = (\<exists>a. Invoked pid sid a \<in> set (trace s))"

subsection \<open>What a running script can change\<close>

text \<open>The events a script records while it runs; the others belong to \<^verbatim>\<open>pub\<close> itself.\<close>

fun userEvent :: "event \<Rightarrow> bool" where
  "userEvent (PubCalled pid tp) = True"
| "userEvent (Observed ow v) = True"
| "userEvent (Subscribed sid tp) = True"
| "userEvent (SubscribeFailed e) = True"
| "userEvent (Settled ow ok) = True"
| "userEvent (ErrorLogged pid sid) = True"
| "userEvent (Selected pid sel) = False"
| "userEvent (Invoked pid sid a) = False"
| "userEvent (Decremented pid) = False"
| "userEvent (PubFulfilled pid) = False"
| "userEvent (PubRejected pid r) = False"

text \<open>
  From \<open>s\<close> to \<open>s'\<close> only user code has run: it has called \<^verbatim>\<open>pub\<close> some \<open>j\<close> times, each
  call adding a promise, one increment and one scheduled resumption, and has scheduled its
  own continuation.
\<close>

definition grows :: "state \<Rightarrow> state \<Rightarrow> bool" where
  "grows s s' =
     (\<exists>new j evs.
        immediates s' = immediates s @ new \<and>
        promises s' = promises s @ replicate j Started \<and>
        inflightCount s' = inflightCount s + int j \<and>
        trace s' = trace s @ evs \<and>
        (\<forall>pid. callbacks pid new = 0) \<and>
        (\<forall>pid. resumes pid new =
                (if length (promises s) \<le> pid \<and> pid < length (promises s) + j then 1 else 0)) \<and>
        (\<forall>e \<in> set evs. userEvent e))"

subsection \<open>Invariants of the event loop\<close>

text \<open>
  The queue agrees with the promises: a started publish has exactly one resumption queued,
  a waiting one exactly as many callbacks as \<^verbatim>\<open>Promise.all\<close> waits for, a fulfilled one
  nothing, and nothing is queued for a publish that was never called.
\<close>

definition consistentAt :: "state \<Rightarrow> nat \<Rightarrow> bool" where
  "consistentAt s pid =
     (case promiseOf s pid of
        None \<Rightarrow> resumes pid (immediates s) = 0 \<and> callbacks pid (immediates s) = 0
      | Some Started \<Rightarrow> resumes pid (immediates s) = 1 \<and> callbacks pid (immediates s) = 0
      | Some (Waiting k) \<Rightarrow>
          resumes pid (immediates s) = 0 \<and> callbacks pid (immediates s) = k \<and> 0 < k
      | Some Fulfilled \<Rightarrow> resumes pid (immediates s) = 0 \<and> callbacks pid (immediates s) = 0
      | Some (Rejected r) \<Rightarrow> resumes pid (immediates s) = 0)"

definition consistent :: "state \<Rightarrow> bool" where
  "consistent s = (\<forall>pid. consistentAt s pid)"

text \<open>The counter is the number of publishes that have not decremented it.\<close>

definition accounted :: "state \<Rightarrow> bool" where
  "accounted s = (inflightCount s = int (unfulfilled (promises s)))"

text \<open>A callback of publish \<open>pid\<close> for subscription \<open>sid\<close> waits in the queue.\<close>

definition queued :: "state \<Rightarrow> nat \<Rightarrow> nat \<Rightarrow> bool" where
  "queued s pid sid =
     (\<exists>tp a m. CallbackResume pid tp a m \<in> set (immediates s) \<and> ident (subscription m) = sid)"

text \<open>
  Selection is tracked: a queued callback and an invoked handler were selected, and a
  selected handler is invoked or its callback is still queued.
\<close>

definition selectedIn :: "state \<Rightarrow> nat \<Rightarrow> nat \<Rightarrow> bool" where
  "selectedIn s pid sid = (\<exists>sel. Selected pid sel \<in> set (trace s) \<and> sid \<in> set sel)"

definition tracked :: "state \<Rightarrow> bool" where
  "tracked s =
     (\<forall>pid sid.
        (queued s pid sid \<longrightarrow> selectedIn s pid sid) \<and>
        (invoked s pid sid \<longrightarrow> selectedIn s pid sid) \<and>
        (selectedIn s pid sid \<longrightarrow> invoked s pid sid \<or> queued s pid sid))"

text \<open>The decrement and the return of a publish are recorded only when it is fulfilled.\<close>

definition returned :: "state \<Rightarrow> nat \<Rightarrow> bool" where
  "returned s pid = (Decremented pid \<in> set (trace s) \<or> PubFulfilled pid \<in> set (trace s))"

definition settledPromises :: "state \<Rightarrow> bool" where
  "settledPromises s = (\<forall>pid. returned s pid \<longrightarrow> promiseOf s pid = Some Fulfilled)"



text \<open>The handlers in the registry and in the queue are \<^verbatim>\<open>async\<close> functions.\<close>

fun asyncTask :: "task \<Rightarrow> bool" where
  "asyncTask (PubResume pid tp a) = True"
| "asyncTask (CallbackResume pid tp a m) = asyncHandler (handler (subscription m))"
| "asyncTask (ScriptResume ow sc) = asyncOnly sc"

definition allAsync :: "state \<Rightarrow> bool" where
  "allAsync s =
     ((\<forall>sub \<in> set (subscriptions s). asyncHandler (handler sub)) \<and>
      (\<forall>t \<in> set (immediates s). asyncTask t))"

text \<open>Publish \<open>pid\<close> was rejected by an exception out of a handler.\<close>

definition handlerRejected :: "state \<Rightarrow> nat \<Rightarrow> bool" where
  "handlerRejected s pid = (\<exists>sid. PubRejected pid (HandlerThrew sid) \<in> set (trace s))"

text \<open>Every rejection of a handler's promise has reached \<^verbatim>\<open>console.error\<close>.\<close>

definition logged :: "state \<Rightarrow> bool" where
  "logged s =
     (\<forall>pid sid. Settled (Invocation pid sid) False \<in> set (trace s) \<longrightarrow>
                ErrorLogged pid sid \<in> set (trace s))"

text \<open>
  Publish \<open>pid\<close> while one of its callbacks runs: the callback has left the queue and
  \<^verbatim>\<open>Promise.all\<close> has not seen it end yet.
\<close>

definition midCallback :: "state \<Rightarrow> nat \<Rightarrow> bool" where
  "midCallback s pid =
     (resumes pid (immediates s) = 0 \<and>
      ((\<exists>k. promiseOf s pid = Some (Waiting k) \<and> Suc (callbacks pid (immediates s)) = k) \<or>
       (\<exists>r. promiseOf s pid = Some (Rejected r))))"


text \<open>All handlers are \<^verbatim>\<open>async\<close> and no publish was rejected by one.\<close>

definition quiet :: "state \<Rightarrow> bool" where
  "quiet s = (allAsync s \<and> (\<forall>pid. \<not> handlerRejected s pid))"

text \<open>No subscription in the registry has an entry in its memo.\<close>

definition memoEmpty :: "state \<Rightarrow> bool" where
  "memoEmpty s = (\<forall>sub \<in> set (subscriptions s). matchedTopics sub = Map.empty)"

text \<open>The args the handlers have been called with, in the order of the calls.\<close>

fun received :: "event list \<Rightarrow> args list" where
  "received [] = []"
| "received (Invoked pid sid a # es) = a # received es"
| "received (e # es) = received es"

text \<open>The calls of handlers, in their order: the publish and the subscription.\<close>

fun calls :: "event list \<Rightarrow> (nat \<times> nat) list" where
  "calls [] = []"
| "calls (Invoked pid sid a # es) = (pid, sid) # calls es"
| "calls (e # es) = calls es"

text \<open>The events of a trace before the first occurrence of \<open>e\<close>.\<close>

definition before :: "event list \<Rightarrow> event \<Rightarrow> event list" where
  "before tr e = takeWhile (\<lambda>x. x \<noteq> e) tr"

text \<open>The handler of subscription \<open>sid\<close> was called for publish \<open>pid\<close> before \<open>e\<close> happened.\<close>

definition calledBefore :: "event list \<Rightarrow> nat \<Rightarrow> nat \<Rightarrow> event \<Rightarrow> bool" where
  "calledBefore tr pid sid e = (\<exists>a. Invoked pid sid a \<in> set (before tr e))"

text \<open>
  The decrement and the return of a publish come after the calls of the handlers selected
  for it.
\<close>

definition callsFirst :: "state \<Rightarrow> bool" where
  "callsFirst s =
     (\<forall>pid sid e. e \<in> {Decremented pid, PubFulfilled pid} \<longrightarrow> e \<in> set (trace s) \<longrightarrow>
        selectedIn s pid sid \<longrightarrow> calledBefore (trace s) pid sid e)"






text \<open>
  By turn \<open>n\<close> of the program the call \<^verbatim>\<open>pub(tp, a)\<close> numbered \<open>pid\<close> has been made: in
  one of the states up to then it waits for its first tick.
\<close>

definition called :: "classRegExp \<Rightarrow> script \<Rightarrow> nat \<Rightarrow> nat \<Rightarrow> string \<Rightarrow> args \<Rightarrow> bool" where
  "called re main n pid tp a =
     (\<exists>k. k \<le> n \<and> PubResume pid tp a \<in> set (immediates (run re k (start re main))))"

text \<open>
  The match \<open>m\<close> carries what matching \<open>tp\<close> against the matcher of its subscription
  returns: the match succeeded, and \<open>m\<close> has its params and its wildcard list.
\<close>

definition matchOf :: "classRegExp \<Rightarrow> string \<Rightarrow> SubscriptionMatch \<Rightarrow> bool" where
  "matchOf re tp m =
     (case match re (matcher (subscription m)) tp of
        Inl e \<Rightarrow> False
      | Inr r \<Rightarrow>
          matched r \<and> capturedParams m = Some (params r) \<and>
          capturedWildcard m = Some (wildcard r))"

text \<open>
  The subscription was made by \<^verbatim>\<open>sub\<close>: its matcher is compiled from its topic, and its
  creation is recorded under its identity.
\<close>

definition created :: "state \<Rightarrow> Subscription \<Rightarrow> bool" where
  "created s sub =
     (new_BasePathMatcher (topic sub) = Inr (matcher sub) \<and>
      Subscribed (ident sub) (topic sub) \<in> set (trace s))"

text \<open>Every subscription in the registry was made by \<^verbatim>\<open>sub\<close>.\<close>

definition compiled :: "state \<Rightarrow> bool" where
  "compiled s = (\<forall>sub \<in> set (subscriptions s). created s sub)"

text \<open>The match comes from matching \<open>tp\<close> against a subscription made by \<^verbatim>\<open>sub\<close>.\<close>

definition sourced :: "classRegExp \<Rightarrow> state \<Rightarrow> string \<Rightarrow> SubscriptionMatch \<Rightarrow> bool" where
  "sourced re s tp m = (matchOf re tp m \<and> created s (subscription m))"

text \<open>
  Every callback in the queue and every call of a handler belongs to a call of \<^verbatim>\<open>pub\<close>
  and to a match of its topic: the args of the call are composed from them.
\<close>

definition explained :: "classRegExp \<Rightarrow> script \<Rightarrow> nat \<Rightarrow> bool" where
  "explained re main n =
     ((\<forall>pid tp a m. CallbackResume pid tp a m \<in> set (immediates (run re n (start re main))) \<longrightarrow>
         called re main n pid tp a \<and> sourced re (run re n (start re main)) tp m) \<and>
      (\<forall>pid sid got. Invoked pid sid got \<in> set (trace (run re n (start re main))) \<longrightarrow>
         (\<exists>tp a m. called re main n pid tp a \<and> sourced re (run re n (start re main)) tp m \<and>
            ident (subscription m) = sid \<and> got = fullArgs a m tp)))"

text \<open>Every call of \<^verbatim>\<open>pub\<close> that waits for its first tick is recorded with its topic.\<close>

definition announced :: "state \<Rightarrow> bool" where
  "announced s =
     (\<forall>pid tp a. PubResume pid tp a \<in> set (immediates s) \<longrightarrow> PubCalled pid tp \<in> set (trace s))"

text \<open>The identities of subscriptions are fresh: each names one creation.\<close>

definition numbered :: "state \<Rightarrow> bool" where
  "numbered s =
     ((\<forall>sid pat. Subscribed sid pat \<in> set (trace s) \<longrightarrow> sid < nextIdent s) \<and>
      (\<forall>sid pat pat'. Subscribed sid pat \<in> set (trace s) \<longrightarrow>
         Subscribed sid pat' \<in> set (trace s) \<longrightarrow> pat = pat'))"

section \<open>Concrete programs\<close>

text \<open>
  One subscriber whose handler awaits a tick before it returns, and one publish:
  \<^verbatim>\<open>sub("/t", async () => { await tick(); }); pub("/t");\<close>
\<close>

definition awaitingHandler :: script where
  "awaitingHandler =
     Sub ''/t'' (Handler True (AwaitTick Return)) False (Pub ''/t'' Map.empty Return)"


text \<open>
  A \<^verbatim>\<open>once\<close> subscription and two publishes issued back to back:
  \<^verbatim>\<open>sub("/t", async () => {}, true); pub("/t"); pub("/t");\<close>
\<close>

definition onceTwice :: script where
  "onceTwice =
     Sub ''/t'' (Handler True Return) True (Pub ''/t'' Map.empty (Pub ''/t'' Map.empty Return))"

text \<open>
  \<^verbatim>\<open>sub("/arg/:test1/:test2/**", async () => {}); pub("/arg/A/B/C/D", { test5: "v" });\<close>
\<close>

definition argsProgram :: script where
  "argsProgram =
     Sub ''/arg/:test1/:test2/**'' (Handler True Return) False
       (Pub ''/arg/A/B/C/D'' [''test5'' \<mapsto> Str ''v''] Return)"

text \<open>
  Two subscribers of one topic, the first of which throws, and one publish:
  \<^verbatim>\<open>sub("/t", async () => { throw new Error() }); sub("/t", async () => {}); pub("/t");\<close>
\<close>

definition failingHandler :: script where
  "failingHandler =
     Sub ''/t'' (Handler True Throw) False
       (Sub ''/t'' (Handler True Return) False (Pub ''/t'' Map.empty Return))"

text \<open>The same with a first handler that is not \<^verbatim>\<open>async\<close>: \<^verbatim>\<open>() => { throw new Error() }\<close>.\<close>

definition throwingHandler :: script where
  "throwingHandler =
     Sub ''/t'' (Handler False Throw) False
       (Sub ''/t'' (Handler True Return) False (Pub ''/t'' Map.empty Return))"

text \<open>
  Two overlapping publishes with a read of the counter after each call and one after both
  have returned:
  \<^verbatim>\<open>pub("/t"); inFlight; pub("/t"); inFlight; await tick(); await tick(); inFlight\<close>
\<close>

definition overlappingPublishes :: script where
  "overlappingPublishes =
     Pub ''/t'' Map.empty (ReadInFlight (Pub ''/t'' Map.empty (ReadInFlight
       (AwaitTick (AwaitTick (ReadInFlight Return))))))"

text \<open>
  One subscriber and the same topic published twice, the second time after the first
  publish has returned:
  \<^verbatim>\<open>sub("/a", async () => {}); pub("/a"); await tick(); await tick(); pub("/a");\<close>
\<close>

definition publishTwice :: script where
  "publishTwice =
     Sub ''/a'' (Handler True Return) False
       (Pub ''/a'' Map.empty (AwaitTick (AwaitTick (Pub ''/a'' Map.empty Return))))"

text \<open>
  A subscription whose character class the host rejects, a subscription of \<^verbatim>\<open>/x\<close> and
  a publish of \<^verbatim>\<open>/x\<close>:
  \<^verbatim>\<open>sub("/[z-a]", async () => {}); sub("/x", async () => {}); pub("/x");\<close>
\<close>

definition poisonedRegistry :: script where
  "poisonedRegistry =
     Sub ''/[z-a]'' (Handler True Return) False
       (Sub ''/x'' (Handler True Return) False (Pub ''/x'' Map.empty Return))"

text \<open>
  One subscriber whose handler is not \<^verbatim>\<open>async\<close> and throws, and one publish, with reads
  of the counter before the call, right after it and when everything has run:
  \<^verbatim>\<open>sub("/t", () => { throw new Error() }); inFlight; pub("/t"); inFlight;\<close>
  \<^verbatim>\<open>await tick(); await tick(); await tick(); inFlight\<close>
\<close>

definition rejectedPublish :: script where
  "rejectedPublish =
     Sub ''/t'' (Handler False Throw) False
       (ReadInFlight (Pub ''/t'' Map.empty (ReadInFlight
          (AwaitTick (AwaitTick (AwaitTick (ReadInFlight Return)))))))"

text \<open>The matcher of \<^verbatim>\<open>/arg/:test1/:test2/**\<close>.\<close>

definition argMatcher :: BasePathMatcher where
  "argMatcher =
     \<lparr>matchers =
        [staticSegment ''arg'', singleParam ''test1'', singleParam ''test2'',
         \<lparr>segmentType = Wildcard, name = None, range = None, optional = False, single = False,
          multi = True, multiString = False, rawSegment = ''**''\<rparr>],
      pattern = ''/arg/:test1/:test2/**'', isRoot = False\<rparr>"

text \<open>
  The same subscription, and a publish whose user args collide with a captured param and
  with both reserved keys:
  \<^verbatim>\<open>pub("/arg/A/B/C/D", { test5: "v", test1: "user", topic: "mine", _: "x" });\<close>
\<close>

definition collidingArgs :: script where
  "collidingArgs =
     Sub ''/arg/:test1/:test2/**'' (Handler True Return) False
       (Pub ''/arg/A/B/C/D''
          [''test5'' \<mapsto> Str ''v'', ''test1'' \<mapsto> Str ''user'', ''topic'' \<mapsto> Str ''mine'',
           ''_'' \<mapsto> Str ''x'']
          Return)"

section \<open>Evaluation of the path matcher on concrete inputs\<close>

lemmas str_eval =
  toLowerCase_def toLowerChar_def toUpperChar_def trim_def isWhiteSpace_def char_of_def
  bit_Suc_0_iff normalizePath_def getSegments_def startsWith_def endsWith_def dropLast_def
  isLineTerminator_def

lemmas parse_eval =
  new_PathSegment_def parse_def parseParam_def applySuffix_def defaultToSingle_def
  isParamOrWildcard_def initialData_def isStandaloneWildcard_def parseStandaloneWildcard_def
  bracketedRangeMatch_def wildcardWithRangeMatch_def wildcardSymbolFlags_def
  PathSegmentData.extend_def PathSegment.fields_def

lemmas segment_matchers =
  segmentMatch_def matchStatic_def matchParam_def matchWildcard_def
  matchSingleParam_def matchMultiParam_def matchMultiStringParam_def
  matchOptionalParam_def matchSingleWildcard_def matchMultiWildcard_def
  matchMultiStringWildcard_def matchOptionalWildcard_def

lemmas match_eval =
  match_def segment_matchers outOfRange_def inBracketRange_def leftoverOnly_def
  hostRegExp_def classAccepts_def inRanges_def

lemmas ctor_eval = new_BasePathMatcher_def parsePattern_def checkParams_def

lemmas concrete_patterns =
  staticSegment_def singleParam_def usersIdMatcher_def reversedRangeMatcher_def

section \<open>The path of a match result\<close>






section \<open>Match never fails on classes the host compiles\<close>

lemma outOfRange_returns:
  "classCompiles re m \<Longrightarrow> \<not> isl (outOfRange re m v)"
  by (auto simp: classCompiles_def outOfRange_def inBracketRange_def Let_def split: option.splits)

lemma anyOutOfRange_returns:
  "classCompiles re m \<Longrightarrow> \<not> isl (anyOutOfRange re m vs)"
proof (induction vs)
  case Nil
  then show ?case by simp
next
  case (Cons v vs)
  from Cons.prems have "\<not> isl (outOfRange re m v)"
    by (rule outOfRange_returns)
  with Cons show ?case by (auto split: sum.splits bool.splits)
qed

lemma segmentMatch_returns:
  assumes "classCompiles re m"
  shows "\<not> isl (segmentMatch re m segs)"
proof -
  have many: "\<not> isl (anyOutOfRange re m segs)"
    using assms by (rule anyOutOfRange_returns)
  have one: "\<And>v. \<not> isl (outOfRange re m v)"
    using assms by (rule outOfRange_returns)
  show ?thesis
  proof (cases segs)
    case Nil
    then show ?thesis
      by (simp add: segment_matchers split: segmentType.splits)
  next
    case (Cons v vs)
    with many one [of v] show ?thesis
      by (auto simp: segment_matchers split: segmentType.splits sum.splits bool.splits)
  qed
qed

lemma matchLoop_returns:
  "list_all (classCompiles re) ms \<Longrightarrow> \<not> isl (matchLoop re ms remaining ps wc)"
proof (induction ms arbitrary: remaining ps wc)
  case Nil
  then show ?case by simp
next
  case (Cons m ms)
  then have m: "classCompiles re m" and ms: "list_all (classCompiles re) ms" by simp_all
  have "\<not> isl (segmentMatch re m remaining)"
    using m by (rule segmentMatch_returns)
  with Cons.IH [OF ms] show ?case
    by (auto simp: Let_def split: sum.splits option.splits)
qed

text \<open>
  C10, as the code has it. The pattern \<^verbatim>\<open>/[z-a]\<close> is accepted by the constructor, and
  matching \<^verbatim>\<open>/x\<close> against it throws: the class body is only handed to the host's
  \<^verbatim>\<open>RegExp\<close> at match time, and the host rejects the reversed range.
\<close>

theorem match_throws_on_reversed_range:
  "new_BasePathMatcher ''/[z-a]'' = Inr reversedRangeMatcher \<and>
   match hostRegExp reversedRangeMatcher ''/x'' = Inl (InvalidRegExp ''z-a'')"
proof
  show "new_BasePathMatcher ''/[z-a]'' = Inr reversedRangeMatcher"
    by (simp add: ctor_eval parse_eval str_eval concrete_patterns)
  show "match hostRegExp reversedRangeMatcher ''/x'' = Inl (InvalidRegExp ''z-a'')"
    by (simp add: match_eval str_eval concrete_patterns)
qed

text \<open>
  C10, amended. For every pattern the constructor accepts whose stored class bodies the
  host's \<^verbatim>\<open>RegExp\<close> compiles (in particular for every pattern without a class), and for
  every candidate path, \<^verbatim>\<open>match\<close> returns a result and throws nothing.
\<close>

theorem match_returns:
  assumes "new_BasePathMatcher p = Inr M" and "classesCompile re M"
  shows "\<exists>r. match re M uri = Inr r"
proof -
  from assms(2) have "\<not> isl (matchLoop re (matchers M) (getSegments uri) Map.empty [])"
    unfolding classesCompile_def by (rule matchLoop_returns)
  then show ?thesis
    by (auto simp: match_def Let_def split: sum.splits)
qed

theorem match_returns_witness:
  "new_BasePathMatcher ''/users/:id[a-z0-9]'' = Inr usersIdMatcher \<and>
   classesCompile hostRegExp usersIdMatcher \<and>
   (\<exists>r. match hostRegExp usersIdMatcher ''/users/abc-123'' = Inr r)"
proof -
  have ctor: "new_BasePathMatcher ''/users/:id[a-z0-9]'' = Inr usersIdMatcher"
    by (simp add: ctor_eval parse_eval str_eval concrete_patterns)
  have cls: "classesCompile hostRegExp usersIdMatcher"
    by (simp add: classesCompile_def classCompiles_def hostRegExp_def str_eval concrete_patterns)
  from match_returns [OF ctor cls] ctor cls show ?thesis by blast
qed

section \<open>Pattern construction\<close>

lemma takeWhile_until: "c \<notin> set xs \<Longrightarrow> takeWhile (\<lambda>x. x \<noteq> c) (xs @ c # ys) = xs"
  by (induction xs) auto

lemma dropWhile_until: "c \<notin> set xs \<Longrightarrow> dropWhile (\<lambda>x. x \<noteq> c) (xs @ c # ys) = c # ys"
  by (induction xs) auto

lemma applySuffix_unknown: "\<not> knownSuffix suf \<Longrightarrow> isl (applySuffix d suf)"
  by (simp add: applySuffix_def knownSuffix_def)

lemma bracketedRangeMatch_shape:
  "body \<noteq> [] \<Longrightarrow> CHR '']'' \<notin> set body \<Longrightarrow> \<not> (\<exists>x \<in> set suf. isLineTerminator x) \<Longrightarrow>
   bracketedRangeMatch (CHR ''['' # body @ CHR '']'' # suf) = Some (CHR ''['' # body @ '']'', suf)"
  by (simp add: bracketedRangeMatch_def takeWhile_until dropWhile_until)

lemma parseParam_unterminated:
  "CHR ''['' \<notin> set nm \<Longrightarrow> CHR '']'' \<notin> set rest \<Longrightarrow> isl (parseParam d (nm @ CHR ''['' # rest))"
  by (simp add: parseParam_def takeWhile_until dropWhile_until Let_def)

lemma parseParam_unknown_suffix:
  "CHR ''['' \<notin> set nm \<Longrightarrow> CHR '']'' \<notin> set body \<Longrightarrow> \<not> knownSuffix suf \<Longrightarrow>
   isl (parseParam d (nm @ CHR ''['' # body @ CHR '']'' # suf))"
proof -
  assume nm: "CHR ''['' \<notin> set nm" and body: "CHR '']'' \<notin> set body" and suf: "\<not> knownSuffix suf"
  have "CHR '']'' \<notin> set (CHR ''['' # body)" using body by simp
  then have t: "takeWhile (\<lambda>x. x \<noteq> CHR '']'') ((CHR ''['' # body) @ CHR '']'' # suf) = CHR ''['' # body"
    and d: "dropWhile (\<lambda>x. x \<noteq> CHR '']'') ((CHR ''['' # body) @ CHR '']'' # suf) = CHR '']'' # suf"
    by (rule takeWhile_until, rule dropWhile_until)
  show ?thesis
    using nm t d applySuffix_unknown [OF suf]
    by (simp add: parseParam_def takeWhile_until dropWhile_until Let_def)
qed

lemma parseParam_missing_name: "knownSuffix suf \<Longrightarrow> isl (parseParam d suf)"
proof -
  assume "knownSuffix suf"
  then consider "suf = []" | "suf = ''+''" | "suf = ''?''" | "suf = ''*''" | "suf = ''**''"
    by (auto simp: knownSuffix_def)
  then show ?thesis
    by cases (simp_all add: parseParam_def endsWith_def dropLast_def applySuffix_def)
qed

lemma parse_wildcard_unknown_suffix:
  assumes "knownSuffix lead" "body \<noteq> []" "CHR '']'' \<notin> set body"
    "\<not> (\<exists>x \<in> set suf. isLineTerminator x)" "\<not> knownSuffix suf"
    and seg: "trim seg0 = lead @ CHR ''['' # body @ CHR '']'' # suf"
  shows "isl (parse seg0)"
proof -
  note br = bracketedRangeMatch_shape [OF assms(2,3,4)]
  note bad = applySuffix_unknown [OF assms(5)]
  from assms(1) consider "lead = []" | "lead = ''+''" | "lead = ''?''" | "lead = ''*''" | "lead = ''**''"
    by (auto simp: knownSuffix_def)
  then show ?thesis
  proof cases
    case 1
    with seg br bad show ?thesis
      by (simp add: parse_def wildcardWithRangeMatch_def startsWith_def isStandaloneWildcard_def)
  next
    case 2
    with seg br bad show ?thesis
      by (simp add: parse_def wildcardWithRangeMatch_def startsWith_def wildcardSymbolFlags_def)
  next
    case 3
    with seg br bad show ?thesis
      by (simp add: parse_def wildcardWithRangeMatch_def startsWith_def wildcardSymbolFlags_def)
  next
    case 4
    with seg br bad show ?thesis
      by (simp add: parse_def wildcardWithRangeMatch_def startsWith_def wildcardSymbolFlags_def)
  next
    case 5
    with seg br bad show ?thesis
      by (simp add: parse_def wildcardWithRangeMatch_def startsWith_def wildcardSymbolFlags_def)
  qed
qed

lemma parse_malformed: "malformed (trim seg0) \<Longrightarrow> isl (parse seg0)"
proof -
  assume "malformed (trim seg0)"
  then show ?thesis
  proof (cases rule: malformed.cases)
    case emptySegment
    then show ?thesis by (simp add: parse_def)
  next
    case (missingName suf)
    then show ?thesis
      using parseParam_missing_name [of suf]
      by (simp add: parse_def startsWith_def)
  next
    case (missingNameBeforeBracket rest)
    then show ?thesis
      by (simp add: parse_def startsWith_def parseParam_def)
  next
    case (unterminatedParamBracket nm rest)
    then show ?thesis
      using parseParam_unterminated [of nm rest]
      by (simp add: parse_def startsWith_def)
  next
    case (unknownParamSuffix nm body suf)
    then show ?thesis
      using parseParam_unknown_suffix [of nm body suf]
      by (simp add: parse_def startsWith_def)
  next
    case (unknownWildcardSuffix lead body suf)
    show ?thesis
      by (rule parse_wildcard_unknown_suffix [OF unknownWildcardSuffix(2-6) unknownWildcardSuffix(1)])
  qed
qed

lemma mapE_fails: "x \<in> set xs \<Longrightarrow> isl (f x) \<Longrightarrow> isl (mapE f xs)"
  by (induction xs) (auto split: sum.splits)

lemma new_PathSegment_malformed: "malformed (trim seg) \<Longrightarrow> isl (new_PathSegment seg)"
  using parse_malformed [of seg] by (auto simp: new_PathSegment_def split: sum.splits)

lemma checkParamsFrom_ok:
  "checkParamsFrom seen ms = Inr u \<Longrightarrow> distinct (paramNames ms) \<and> set (paramNames ms) \<inter> seen = {}"
proof (induction ms arbitrary: seen)
  case Nil
  then show ?case by (simp add: paramNames_def)
next
  case (Cons m ms)
  show ?case
  proof (cases "segmentType m = Param")
    case True
    with Cons.prems have fresh: "name m \<notin> seen"
      and rest: "checkParamsFrom (insert (name m) seen) ms = Inr u"
      by (auto split: if_splits)
    from Cons.IH [OF rest] True fresh show ?thesis
      by (auto simp: paramNames_def)
  next
    case False
    with Cons show ?thesis by (auto simp: paramNames_def)
  qed
qed

text \<open>
  C9, on the code. The segments \<^verbatim>\<open>*[a-z\<close> and \<^verbatim>\<open>[a-z\<close>, whose bracket is never
  closed, are accepted and become static text, while the same open bracket after a
  parameter name is rejected: \<^verbatim>\<open>parse\<close> reaches brackets of wildcards only through its
  two regular expressions, which need the closing bracket, and never calls
  \<^verbatim>\<open>parseBracketedRange\<close>, the one place that would throw for them. For the same
  reason a suffix is only checked after a closed bracket: \<^verbatim>\<open>*x\<close> is static text and
  \<^verbatim>\<open>:id+x\<close> a parameter named \<^verbatim>\<open>id+x\<close>.
\<close>

theorem unterminated_bracket_accepted:
  "new_BasePathMatcher ''/*[a-z'' =
     Inr \<lparr>matchers = [staticSegment ''*[a-z''], pattern = ''/*[a-z'', isRoot = False\<rparr> \<and>
   new_BasePathMatcher ''/[a-z'' =
     Inr \<lparr>matchers = [staticSegment ''[a-z''], pattern = ''/[a-z'', isRoot = False\<rparr> \<and>
   new_BasePathMatcher ''/:x[a-z'' = Inl (InvalidBracketInParam ''x[a-z'') \<and>
   new_BasePathMatcher ''/*x'' =
     Inr \<lparr>matchers = [staticSegment ''*x''], pattern = ''/*x'', isRoot = False\<rparr> \<and>
   new_BasePathMatcher ''/:id+x'' =
     Inr \<lparr>matchers = [singleParam ''id+x''], pattern = ''/:id+x'', isRoot = False\<rparr>"
proof (intro conjI)
  show "new_BasePathMatcher ''/*[a-z'' =
     Inr \<lparr>matchers = [staticSegment ''*[a-z''], pattern = ''/*[a-z'', isRoot = False\<rparr>"
    by (simp add: ctor_eval parse_eval str_eval concrete_patterns)
  show "new_BasePathMatcher ''/[a-z'' =
     Inr \<lparr>matchers = [staticSegment ''[a-z''], pattern = ''/[a-z'', isRoot = False\<rparr>"
    by (simp add: ctor_eval parse_eval str_eval concrete_patterns)
  show "new_BasePathMatcher ''/:x[a-z'' = Inl (InvalidBracketInParam ''x[a-z'')"
    by (simp add: ctor_eval parse_eval str_eval)
  show "new_BasePathMatcher ''/*x'' =
     Inr \<lparr>matchers = [staticSegment ''*x''], pattern = ''/*x'', isRoot = False\<rparr>"
    by (simp add: ctor_eval parse_eval str_eval concrete_patterns)
  show "new_BasePathMatcher ''/:id+x'' =
     Inr \<lparr>matchers = [singleParam ''id+x''], pattern = ''/:id+x'', isRoot = False\<rparr>"
    by (simp add: ctor_eval parse_eval str_eval concrete_patterns)
qed

subsection \<open>What pattern construction rejects\<close>

text \<open>
  Normalization drops the empty fragments of a pattern before any segment is parsed, as it
  does for a candidate path: \<^verbatim>\<open>/a//b\<close> is the pattern \<^verbatim>\<open>/a/b\<close>.
\<close>

lemma empty_fragments_dropped:
  "split CHR ''/'' ''/a//b'' = [[], ''a'', [], ''b''] \<and>
   new_BasePathMatcher ''/a//b'' =
     Inr \<lparr>matchers = [staticSegment ''a'', staticSegment ''b''], pattern = ''/a/b'', isRoot = False\<rparr>"
proof (intro conjI)
  show "split CHR ''/'' ''/a//b'' = [[], ''a'', [], ''b'']" by simp
  show "new_BasePathMatcher ''/a//b'' =
     Inr \<lparr>matchers = [staticSegment ''a'', staticSegment ''b''], pattern = ''/a/b'', isRoot = False\<rparr>"
    by (simp add: ctor_eval parse_eval str_eval concrete_patterns)
qed

text \<open>
  Construction of a pattern other than \<^verbatim>\<open>/\<close> fails with an error whenever one of the
  segments that normalization leaves is malformed, or two of its named parameters share a
  name. Malformed is: a colon followed by no name, that is directly by a known suffix or by
  a bracket; a named parameter whose bracket is not closed; a named parameter with a closed
  bracket and then an unknown suffix; a known wildcard symbol or nothing, then a closed
  bracket that is not empty, then an unknown suffix without a line terminator.
\<close>

theorem construction_fails_fast:
  assumes "p \<noteq> ''/''"
    and "(\<exists>seg \<in> set (getSegments p). malformed (trim seg)) \<or>
         (\<exists>segs. parsePattern p = Inr segs \<and> \<not> distinct (paramNames segs))"
  shows "\<exists>e. new_BasePathMatcher p = Inl e"
  using assms(2)
proof
  assume "\<exists>seg \<in> set (getSegments p). malformed (trim seg)"
  then obtain seg where "seg \<in> set (getSegments p)" "isl (new_PathSegment seg)"
    using new_PathSegment_malformed by blast
  then have "isl (mapE new_PathSegment (getSegments p))" by (rule mapE_fails)
  with assms(1) show ?thesis
    by (auto simp: new_BasePathMatcher_def parsePattern_def split: sum.splits)
next
  assume "\<exists>segs. parsePattern p = Inr segs \<and> \<not> distinct (paramNames segs)"
  then obtain segs where segs: "parsePattern p = Inr segs" and dup: "\<not> distinct (paramNames segs)"
    by blast
  have "isl (checkParams segs)"
    using dup checkParamsFrom_ok [of "{}" segs] by (cases "checkParams segs") (auto simp: checkParams_def)
  with segs show ?thesis
    by (auto simp: new_BasePathMatcher_def Let_def split: sum.splits)
qed

theorem construction_fails_fast_witness:
  "''/files/[a-z]x'' \<noteq> ''/'' \<and>
   ''[a-z]x'' \<in> set (getSegments ''/files/[a-z]x'') \<and>
   malformed (trim ''[a-z]x'') \<and>
   parsePattern ''/users/:id/:id'' = Inr [staticSegment ''users'', singleParam ''id'', singleParam ''id''] \<and>
   new_BasePathMatcher ''/files/[a-z]x'' = Inl (UnknownSuffix ''x'') \<and>
   new_BasePathMatcher ''/users/:id/:id'' = Inl (DuplicateParameterName ''id'')"
proof -
  have seg: "''[a-z]x'' \<in> set (getSegments ''/files/[a-z]x'')"
    by (simp add: str_eval)
  have "malformed ([] @ CHR ''['' # ''a-z'' @ CHR '']'' # ''x'')"
    by (rule malformed.unknownWildcardSuffix) (simp_all add: knownSuffix_def isLineTerminator_def)
  then have bad: "malformed (trim ''[a-z]x'')"
    by (simp add: trim_def isWhiteSpace_def)
  have dupl: "parsePattern ''/users/:id/:id'' =
      Inr [staticSegment ''users'', singleParam ''id'', singleParam ''id'']"
    by (simp add: ctor_eval parse_eval str_eval concrete_patterns)
  have e1: "new_BasePathMatcher ''/files/[a-z]x'' = Inl (UnknownSuffix ''x'')"
    by (simp add: ctor_eval parse_eval str_eval)
  have e2: "new_BasePathMatcher ''/users/:id/:id'' = Inl (DuplicateParameterName ''id'')"
    by (simp add: ctor_eval parse_eval str_eval)
  have "\<exists>e. new_BasePathMatcher ''/files/[a-z]x'' = Inl e"
    using seg bad by (intro construction_fails_fast) auto
  moreover have "\<exists>e. new_BasePathMatcher ''/users/:id/:id'' = Inl e"
    using dupl by (intro construction_fails_fast) (auto simp: paramNames_def concrete_patterns)
  ultimately show ?thesis using seg bad dupl e1 e2 by simp
qed

section \<open>The frame of user code\<close>

lemmas prim_defs =
  emit_def setImmediate_def settle_def raise_def addSubscription_def deleteSubscription_def
  callPub_def setPromise_def fulfil_def reject_def

lemma resumes_append [simp]: "resumes pid (q @ q') = resumes pid q + resumes pid q'"
  by (simp add: resumes_def)

lemma callbacks_append [simp]: "callbacks pid (q @ q') = callbacks pid q + callbacks pid q'"
  by (simp add: callbacks_def)

lemma resumes_Nil [simp]: "resumes pid [] = 0"
  by (simp add: resumes_def)

lemma callbacks_Nil [simp]: "callbacks pid [] = 0"
  by (simp add: callbacks_def)

lemma resumes_Cons [simp]: "resumes pid (t # q) = (if isResumeOf pid t then 1 else 0) + resumes pid q"
  by (simp add: resumes_def)

lemma callbacks_Cons [simp]:
  "callbacks pid (t # q) = (if isCallbackOf pid t then 1 else 0) + callbacks pid q"
  by (simp add: callbacks_def)

lemma fold_delete_fields [simp]:
  "immediates (fold (\<lambda>m. deleteSubscription (subscription m)) ms s) = immediates s"
  "promises (fold (\<lambda>m. deleteSubscription (subscription m)) ms s) = promises s"
  "inflightCount (fold (\<lambda>m. deleteSubscription (subscription m)) ms s) = inflightCount s"
  "trace (fold (\<lambda>m. deleteSubscription (subscription m)) ms s) = trace s"
  "nextIdent (fold (\<lambda>m. deleteSubscription (subscription m)) ms s) = nextIdent s"
  by (induction ms arbitrary: s) (simp_all add: deleteSubscription_def)

lemma growsI:
  assumes "immediates s' = immediates s @ new"
    and "promises s' = promises s @ replicate j Started"
    and "inflightCount s' = inflightCount s + int j"
    and "trace s' = trace s @ evs"
    and "\<And>pid. callbacks pid new = 0"
    and "\<And>pid. resumes pid new =
                (if length (promises s) \<le> pid \<and> pid < length (promises s) + j then 1 else 0)"
    and "\<And>e. e \<in> set evs \<Longrightarrow> userEvent e"
  shows "grows s s'"
  unfolding grows_def using assms by blast

lemma grows_refl: "grows s s"
  by (rule growsI [where new = "[]" and j = 0 and evs = "[]"]) simp_all

lemma grows_same:
  "immediates s' = immediates s \<Longrightarrow> promises s' = promises s \<Longrightarrow>
   inflightCount s' = inflightCount s \<Longrightarrow> trace s' = trace s \<Longrightarrow> grows s s'"
  by (rule growsI [where new = "[]" and j = 0 and evs = "[]"]) simp_all

lemma grows_trans:
  assumes "grows s s'" and "grows s' s''"
  shows "grows s s''"
proof -
  from assms(1) obtain new j evs where 1:
    "immediates s' = immediates s @ new" "promises s' = promises s @ replicate j Started"
    "inflightCount s' = inflightCount s + int j" "trace s' = trace s @ evs"
    "\<And>pid. callbacks pid new = 0"
    "\<And>pid. resumes pid new =
                (if length (promises s) \<le> pid \<and> pid < length (promises s) + j then 1 else 0)"
    "\<And>e. e \<in> set evs \<Longrightarrow> userEvent e"
    unfolding grows_def by blast
  from assms(2) obtain new' j' evs' where 2:
    "immediates s'' = immediates s' @ new'" "promises s'' = promises s' @ replicate j' Started"
    "inflightCount s'' = inflightCount s' + int j'" "trace s'' = trace s' @ evs'"
    "\<And>pid. callbacks pid new' = 0"
    "\<And>pid. resumes pid new' =
                (if length (promises s') \<le> pid \<and> pid < length (promises s') + j' then 1 else 0)"
    "\<And>e. e \<in> set evs' \<Longrightarrow> userEvent e"
    unfolding grows_def by blast
  show ?thesis
  proof (rule growsI [where new = "new @ new'" and j = "j + j'" and evs = "evs @ evs'"])
    show "immediates s'' = immediates s @ new @ new'" by (simp add: 1 2)
    show "promises s'' = promises s @ replicate (j + j') Started"
      by (simp add: 1 2 replicate_add)
    show "inflightCount s'' = inflightCount s + int (j + j')" by (simp add: 1 2)
    show "trace s'' = trace s @ evs @ evs'" by (simp add: 1 2)
    show "callbacks pid (new @ new') = 0" for pid by (simp add: 1 2)
    show "resumes pid (new @ new') =
        (if length (promises s) \<le> pid \<and> pid < length (promises s) + (j + j') then 1 else 0)" for pid
      by (simp add: 1(2,6) 2(6))
    show "userEvent e" if "e \<in> set (evs @ evs')" for e
      using that 1(7) 2(7) by auto
  qed
qed

lemma grows_emit: "userEvent e \<Longrightarrow> grows s (emit e s)"
  by (rule growsI [where new = "[]" and j = 0 and evs = "[e]"]) (simp_all add: emit_def)

lemma grows_settle: "grows s (settle ow ok s)"
proof (cases ow)
  case Main
  then show ?thesis by (simp add: settle_def grows_emit)
next
  case (Invocation pid sid)
  show ?thesis
  proof (cases ok)
    case True
    with Invocation show ?thesis by (simp add: settle_def grows_emit)
  next
    case False
    have "grows s (emit (ErrorLogged pid sid) (emit (Settled ow ok) s))"
      by (rule grows_trans [OF grows_emit grows_emit]) simp_all
    with False Invocation show ?thesis by (simp add: settle_def)
  qed
qed

lemma grows_raise: "grows s (fst (raise ow sync s))"
  by (simp add: raise_def grows_refl grows_settle)

lemma grows_schedule: "grows s (setImmediate (ScriptResume ow sc) s)"
  by (rule growsI [where new = "[ScriptResume ow sc]" and j = 0 and evs = "[]"])
     (simp_all add: setImmediate_def)

lemma grows_addSubscription: "grows s (addSubscription tp M h oc s)"
  by (rule growsI [where new = "[]" and j = 0 and evs = "[Subscribed (nextIdent s) tp]"])
     (simp_all add: addSubscription_def emit_def)

lemma grows_callPub: "grows s (callPub tp a s)"
  by (rule growsI [where new = "[PubResume (length (promises s)) tp a]" and j = 1
        and evs = "[PubCalled (length (promises s)) tp]"])
     (auto simp: callPub_def emit_def setImmediate_def)

lemma exec_grows: "grows s (fst (exec re ow sync sc s))"
proof (induction re ow sync sc s rule: exec.induct)
  case (1 re ow sync s)
  then show ?case by (simp add: grows_settle)
next
  case (2 re ow sync s)
  then show ?case by (simp add: grows_raise)
next
  case (3 re ow sync rest s)
  then show ?case by (simp add: grows_schedule)
next
  case (4 re ow sync rest s)
  have "grows s (emit (Observed ow (inflightCount s)) s)" by (simp add: grows_emit)
  with 4 show ?case by (auto intro: grows_trans)
next
  case (5 re ow sync tp h oc rest s)
  show ?case
  proof (cases "new_BasePathMatcher tp")
    case (Inl e)
    have "grows s (emit (SubscribeFailed e) s)" by (simp add: grows_emit)
    then have "grows s (fst (raise ow sync (emit (SubscribeFailed e) s)))"
      by (rule grows_trans) (rule grows_raise)
    with Inl show ?thesis by simp
  next
    case (Inr M)
    with 5 grows_addSubscription [of s tp M h oc] show ?thesis
      by (auto intro: grows_trans)
  qed
next
  case (6 re ow sync tp rest s)
  show ?case
  proof (cases "filterSubs re (subscriptions s) tp")
    case (Inl e)
    then show ?thesis by (simp add: grows_raise)
  next
    case (Inr ms)
    have "grows s (fold (\<lambda>m. deleteSubscription (subscription m)) ms s)"
      by (rule grows_same) simp_all
    with Inr 6 show ?thesis by (auto intro: grows_trans)
  qed
next
  case (7 re ow sync tp a rest s)
  with grows_callPub [of s tp a] show ?case by (auto intro: grows_trans)
qed


section \<open>The queue, the promises and the counter\<close>

lemma grows_promiseOf:
  "grows s s' \<Longrightarrow> pid < length (promises s) \<Longrightarrow> promiseOf s' pid = promiseOf s pid"
  by (auto simp: grows_def promiseOf_def nth_append)

lemma grows_callbacks: "grows s s' \<Longrightarrow> callbacks pid (immediates s') = callbacks pid (immediates s)"
  by (auto simp: grows_def)

lemma grows_resumes:
  "grows s s' \<Longrightarrow> pid < length (promises s) \<Longrightarrow>
   resumes pid (immediates s') = resumes pid (immediates s)"
  by (auto simp: grows_def)

lemma grows_length: "grows s s' \<Longrightarrow> length (promises s) \<le> length (promises s')"
  by (auto simp: grows_def)

lemma consistentAt_grows:
  assumes "consistentAt s pid" and "grows s s'"
  shows "consistentAt s' pid"
proof -
  from assms(2) obtain new j evs where g:
    "immediates s' = immediates s @ new" "promises s' = promises s @ replicate j Started"
    "\<And>p. callbacks p new = 0"
    "\<And>p. resumes p new =
                (if length (promises s) \<le> p \<and> p < length (promises s) + j then 1 else 0)"
    unfolding grows_def by blast
  consider "pid < length (promises s)"
    | "length (promises s) \<le> pid" "pid < length (promises s) + j"
    | "length (promises s) + j \<le> pid"
    by linarith
  then show ?thesis
  proof cases
    case 1
    then have "promiseOf s' pid = promiseOf s pid"
      by (simp add: promiseOf_def g(2) nth_append)
    with 1 assms(1) show ?thesis
      by (auto simp: consistentAt_def g(1,3,4) split: option.splits promiseState.splits)
  next
    case 2
    then have "promiseOf s' pid = Some Started" "promiseOf s pid = None"
      by (simp_all add: promiseOf_def g(2) nth_append)
    with 2 assms(1) show ?thesis
      by (simp add: consistentAt_def g(1,3,4))
  next
    case 3
    then have "promiseOf s' pid = None" "promiseOf s pid = None"
      by (simp_all add: promiseOf_def g(2))
    with 3 assms(1) show ?thesis
      by (simp add: consistentAt_def g(1,3,4))
  qed
qed

lemma consistent_grows: "consistent s \<Longrightarrow> grows s s' \<Longrightarrow> consistent s'"
  unfolding consistent_def using consistentAt_grows by blast

lemma unfulfilled_append [simp]: "unfulfilled (ps @ qs) = unfulfilled ps + unfulfilled qs"
  by (simp add: unfulfilled_def)

lemma unfulfilled_replicate [simp]: "unfulfilled (replicate j Started) = j"
  by (induction j) (simp_all add: unfulfilled_def)

lemma unfulfilled_update:
  "i < length ps \<Longrightarrow>
   unfulfilled (ps[i := x]) + (if ps ! i \<noteq> Fulfilled then 1 else 0) =
   unfulfilled ps + (if x \<noteq> Fulfilled then 1 else 0)"
proof (induction ps arbitrary: i)
  case Nil
  then show ?case by simp
next
  case (Cons p ps)
  show ?case
  proof (cases i)
    case 0
    then show ?thesis by (simp add: unfulfilled_def)
  next
    case (Suc i')
    with Cons.prems have "i' < length ps" by simp
    from Cons.IH [OF this] Suc show ?thesis
      by (auto simp: unfulfilled_def split: if_splits)
  qed
qed

lemma accounted_grows: "accounted s \<Longrightarrow> grows s s' \<Longrightarrow> accounted s'"
  by (auto simp: accounted_def grows_def)

text \<open>The two invariants together.\<close>

lemma fold_setImmediate_fields [simp]:
  "immediates (fold (\<lambda>m. setImmediate (f m)) ms s) = immediates s @ map f ms"
  "promises (fold (\<lambda>m. setImmediate (f m)) ms s) = promises s"
  "inflightCount (fold (\<lambda>m. setImmediate (f m)) ms s) = inflightCount s"
  "trace (fold (\<lambda>m. setImmediate (f m)) ms s) = trace s"
  "subscriptions (fold (\<lambda>m. setImmediate (f m)) ms s) = subscriptions s"
  "nextIdent (fold (\<lambda>m. setImmediate (f m)) ms s) = nextIdent s"
  by (induction ms arbitrary: s) (simp_all add: setImmediate_def)

lemma callbacks_map_callback [simp]:
  "callbacks pid' (map (CallbackResume pid tp a) ms) = (if pid' = pid then length ms else 0)"
  by (induction ms) auto

lemma resumes_map_callback [simp]: "resumes pid' (map (CallbackResume pid tp a) ms) = 0"
  by (induction ms) auto

lemma resumePub_sound:
  assumes c: "consistent s" and a: "accounted s" and q: "immediates s = PubResume pid tp a # ts"
  shows "consistent (resumePub re pid tp a (s\<lparr>immediates := ts\<rparr>)) \<and>
         accounted (resumePub re pid tp a (s\<lparr>immediates := ts\<rparr>))"
proof -
  from c have at: "consistentAt s p" for p by (simp add: consistent_def)
  from at [of pid] q have st: "pid < length (promises s)" "promises s ! pid = Started"
    and ts: "resumes pid ts = 0" "callbacks pid ts = 0"
    by (auto simp: consistentAt_def promiseOf_def split: if_splits promiseState.splits)
  have other: "p \<noteq> pid \<Longrightarrow> resumes p ts = resumes p (immediates s) \<and>
      callbacks p ts = callbacks p (immediates s)" for p
    by (simp add: q)
  show ?thesis
  proof (cases "filterSubs re (subscriptions s) tp")
    case (Inl e)
    have "consistentAt (resumePub re pid tp a (s\<lparr>immediates := ts\<rparr>)) p" for p
      using at [of p] other [of p] st ts Inl
      by (cases "p = pid")
        (auto simp: resumePub_def consistentAt_def promiseOf_def prim_defs
          split: if_splits promiseState.splits)
    moreover have "accounted (resumePub re pid tp a (s\<lparr>immediates := ts\<rparr>))"
      using a st Inl unfulfilled_update [of pid "promises s" "Rejected (MatchFailed e)"]
      by (simp add: resumePub_def accounted_def prim_defs)
    ultimately show ?thesis by (simp add: consistent_def)
  next
    case (Inr ms)
    have "consistentAt (resumePub re pid tp a (s\<lparr>immediates := ts\<rparr>)) p" for p
      using at [of p] other [of p] st ts Inr
      by (cases "p = pid")
        (auto simp: resumePub_def consistentAt_def promiseOf_def prim_defs Let_def
          split: if_splits promiseState.splits)
    moreover have "accounted (resumePub re pid tp a (s\<lparr>immediates := ts\<rparr>))"
      using a st Inr unfulfilled_update [of pid "promises s" Fulfilled]
        unfulfilled_update [of pid "promises s" "Waiting (length ms)"]
      by (auto simp: resumePub_def accounted_def prim_defs Let_def)
    ultimately show ?thesis by (simp add: consistent_def)
  qed
qed


lemma emit_fields [simp]:
  "immediates (emit e s) = immediates s"
  "promises (emit e s) = promises s"
  "inflightCount (emit e s) = inflightCount s"
  "subscriptions (emit e s) = subscriptions s"
  "nextIdent (emit e s) = nextIdent s"
  "trace (emit e s) = trace s @ [e]"
  by (simp_all add: emit_def)

lemma deleteSubscription_fields [simp]:
  "immediates (deleteSubscription sub s) = immediates s"
  "promises (deleteSubscription sub s) = promises s"
  "inflightCount (deleteSubscription sub s) = inflightCount s"
  "nextIdent (deleteSubscription sub s) = nextIdent s"
  "trace (deleteSubscription sub s) = trace s"
  by (simp_all add: deleteSubscription_def)

lemma promiseOf_cong:
  "promises s' = promises s \<Longrightarrow> promiseOf s' pid = promiseOf s pid"
  by (simp add: promiseOf_def)

lemma midCallback_grows:
  assumes "midCallback s pid" and "grows s s'"
  shows "midCallback s' pid"
proof -
  from assms(1) have "pid < length (promises s)"
    by (auto simp: midCallback_def promiseOf_def split: if_splits)
  with assms show ?thesis
    by (simp add: midCallback_def grows_promiseOf grows_callbacks grows_resumes)
qed

lemma callback_ends_sound:
  assumes others: "\<And>p. p \<noteq> pid \<Longrightarrow> consistentAt s p"
    and mid: "midCallback s pid" and acc: "accounted s"
  shows "consistent (callbackFulfilled pid s) \<and> accounted (callbackFulfilled pid s) \<and>
         consistent (callbackRejected pid sid s) \<and> accounted (callbackRejected pid sid s)"
proof -
  from mid have len: "pid < length (promises s)"
    by (auto simp: midCallback_def promiseOf_def split: if_splits)
  have keepF: "p \<noteq> pid \<Longrightarrow> consistentAt (callbackFulfilled pid s) p" for p
    using others [of p]
    by (auto simp: callbackFulfilled_def consistentAt_def promiseOf_def prim_defs
        split: option.splits promiseState.splits if_splits)
  have keepR: "p \<noteq> pid \<Longrightarrow> consistentAt (callbackRejected pid sid s) p" for p
    using others [of p]
    by (auto simp: callbackRejected_def consistentAt_def promiseOf_def prim_defs
        split: option.splits promiseState.splits if_splits)
  have hereF: "consistentAt (callbackFulfilled pid s) pid"
    using mid
    by (auto simp: midCallback_def callbackFulfilled_def consistentAt_def promiseOf_def prim_defs
        split: if_splits)
  have hereR: "consistentAt (callbackRejected pid sid s) pid"
    using mid
    by (auto simp: midCallback_def callbackRejected_def consistentAt_def promiseOf_def prim_defs
        split: if_splits)
  have accF: "accounted (callbackFulfilled pid s)"
  proof (cases "promises s ! pid")
    case (Waiting k)
    with acc len unfulfilled_update [of pid "promises s" Fulfilled]
      unfulfilled_update [of pid "promises s" "Waiting (k - 1)"]
    show ?thesis
      by (auto simp: callbackFulfilled_def accounted_def promiseOf_def prim_defs)
  qed (use acc len in \<open>simp_all add: callbackFulfilled_def accounted_def promiseOf_def\<close>)
  have accR: "accounted (callbackRejected pid sid s)"
  proof (cases "promises s ! pid")
    case (Waiting k)
    with acc len unfulfilled_update [of pid "promises s" "Rejected (HandlerThrew sid)"]
    show ?thesis
      by (auto simp: callbackRejected_def accounted_def promiseOf_def prim_defs)
  qed (use acc len in \<open>simp_all add: callbackRejected_def accounted_def promiseOf_def\<close>)
  from keepF keepR hereF hereR accF accR show ?thesis
    unfolding consistent_def by metis
qed

lemma resumeCallback_sound:
  assumes c: "consistent s" and a: "accounted s"
    and q: "immediates s = CallbackResume pid tp ar m # ts"
  shows "consistent (resumeCallback re pid tp ar m (s\<lparr>immediates := ts\<rparr>)) \<and>
         accounted (resumeCallback re pid tp ar m (s\<lparr>immediates := ts\<rparr>))"
proof -
  define s1 where "s1 = emit (Invoked pid (ident (subscription m)) (fullArgs ar m tp)) (s\<lparr>immediates := ts\<rparr>)"
  obtain isAsync body where h: "handler (subscription m) = Handler isAsync body"
    by (cases "handler (subscription m)")
  define r where "r = exec re (Invocation pid (ident (subscription m))) (\<not> isAsync) body s1"
  define s2 where "s2 = fst r"
  define s3 where "s3 = (if once (subscription m) then deleteSubscription (subscription m) s2 else s2)"
  from c have at: "consistentAt s p" for p by (simp add: consistent_def)
  have others1: "p \<noteq> pid \<Longrightarrow> consistentAt s1 p" for p
    using at [of p]
    by (auto simp: s1_def consistentAt_def promiseOf_def q split: if_splits promiseState.splits)
  have mid1: "midCallback s1 pid"
    using at [of pid]
    by (auto simp: s1_def midCallback_def consistentAt_def promiseOf_def q
        split: if_splits promiseState.splits)
  have acc1: "accounted s1" using a by (simp add: s1_def accounted_def)
  have g: "grows s1 s2" unfolding s2_def r_def by (rule exec_grows)
  have others2: "p \<noteq> pid \<Longrightarrow> consistentAt s2 p" for p
    using others1 g by (rule consistentAt_grows)
  have mid2: "midCallback s2 pid" using mid1 g by (rule midCallback_grows)
  have acc2: "accounted s2" using acc1 g by (rule accounted_grows)
  have others3: "p \<noteq> pid \<Longrightarrow> consistentAt s3 p" for p
    using others2 [of p]
    by (auto simp: s3_def consistentAt_def promiseOf_def split: if_splits promiseState.splits)
  have mid3: "midCallback s3 pid"
    using mid2 by (auto simp: s3_def midCallback_def promiseOf_def split: if_splits)
  have acc3: "accounted s3" using acc2 by (simp add: s3_def accounted_def)
  have res: "resumeCallback re pid tp ar m (s\<lparr>immediates := ts\<rparr>) =
      (if snd r then callbackRejected pid (ident (subscription m)) s2
       else callbackFulfilled pid s3)"
    by (simp add: resumeCallback_def Let_def h s1_def r_def s2_def s3_def split: prod.splits)
  show ?thesis
    unfolding res
    using callback_ends_sound [OF others2 mid2 acc2] callback_ends_sound [OF others3 mid3 acc3]
    by simp
qed

lemma process_sound:
  assumes "consistent s" and "accounted s" and "immediates s = t # ts"
  shows "consistent (process re t (s\<lparr>immediates := ts\<rparr>)) \<and>
         accounted (process re t (s\<lparr>immediates := ts\<rparr>))"
proof (cases t)
  case (PubResume pid tp a)
  with assms show ?thesis by (simp add: process_def resumePub_sound)
next
  case (CallbackResume pid tp a m)
  with assms show ?thesis by (simp add: process_def resumeCallback_sound)
next
  case (ScriptResume ow sc)
  from assms(1) have at: "consistentAt s p" for p by (simp add: consistent_def)
  have "consistentAt (s\<lparr>immediates := ts\<rparr>) p" for p
    using at [of p] assms(3) ScriptResume
    by (auto simp: consistentAt_def promiseOf_def split: if_splits promiseState.splits)
  then have c: "consistent (s\<lparr>immediates := ts\<rparr>)" by (simp add: consistent_def)
  have a: "accounted (s\<lparr>immediates := ts\<rparr>)" using assms(2) by (simp add: accounted_def)
  from c a exec_grows [of "s\<lparr>immediates := ts\<rparr>" re ow False sc] ScriptResume show ?thesis
    by (auto simp: process_def intro: consistent_grows accounted_grows)
qed

lemma step_sound: "consistent s \<and> accounted s \<Longrightarrow> consistent (step re s) \<and> accounted (step re s)"
  by (cases "immediates s") (simp_all add: step_def process_sound)

lemma run_sound: "consistent s \<and> accounted s \<Longrightarrow> consistent (run re n s) \<and> accounted (run re n s)"
  by (induction n arbitrary: s) (simp_all add: step_sound)

lemma initial_sound: "consistent initialState \<and> accounted initialState"
  by (simp add: consistent_def consistentAt_def promiseOf_def accounted_def initialState_def
      unfulfilled_def)

lemma start_sound: "consistent (start re main) \<and> accounted (start re main)"
  unfolding start_def
  using initial_sound exec_grows [of initialState re Main False main]
  by (blast intro: consistent_grows accounted_grows)

lemma reachable_sound:
  "consistent (run re n (start re main)) \<and> accounted (run re n (start re main))"
  by (rule run_sound) (rule start_sound)


section \<open>Selection, invocation and the queue\<close>

lemma no_callbacks_in:
  "\<forall>pid. callbacks pid q = 0 \<Longrightarrow> CallbackResume pid tp a m \<notin> set q"
proof (induction q)
  case Nil
  then show ?case by simp
next
  case (Cons t q)
  from Cons.prems have here: "\<forall>p. \<not> isCallbackOf p t" and rest: "\<forall>p. callbacks p q = 0"
    by (auto split: if_splits)
  from here have "t \<noteq> CallbackResume pid tp a m" by auto
  with Cons.IH [OF rest] show ?case by simp
qed

lemma grows_queued: "grows s s' \<Longrightarrow> queued s' pid sid = queued s pid sid"
  using no_callbacks_in by (fastforce simp: grows_def queued_def)

lemma grows_invoked: "grows s s' \<Longrightarrow> invoked s' pid sid = invoked s pid sid"
  by (fastforce simp: grows_def invoked_def)

lemma grows_selectedIn: "grows s s' \<Longrightarrow> selectedIn s' pid sid = selectedIn s pid sid"
  by (fastforce simp: grows_def selectedIn_def)

lemma tracked_grows: "tracked s \<Longrightarrow> grows s s' \<Longrightarrow> tracked s'"
  by (simp add: tracked_def grows_queued grows_invoked grows_selectedIn)

text \<open>The end of a callback changes neither the queue nor the selections and invocations.\<close>

lemma callback_end_fields [simp]:
  "immediates (callbackFulfilled pid s) = immediates s"
  "immediates (callbackRejected pid sid s) = immediates s"
  "subscriptions (callbackFulfilled pid s) = subscriptions s"
  "subscriptions (callbackRejected pid sid s) = subscriptions s"
  by (simp_all add: callbackFulfilled_def callbackRejected_def prim_defs
      split: option.splits promiseState.splits)

lemma callback_end_trace:
  "\<exists>evs. trace (callbackFulfilled pid s) = trace s @ evs \<and>
         set evs \<subseteq> {Decremented pid, PubFulfilled pid}"
  "\<exists>evs. trace (callbackRejected pid sid s) = trace s @ evs \<and>
         set evs \<subseteq> {PubRejected pid (HandlerThrew sid)}"
  by (auto simp: callbackFulfilled_def callbackRejected_def prim_defs
      split: option.splits promiseState.splits)

lemma callback_end_tracking [simp]:
  "queued (callbackFulfilled pid s) p sid' = queued s p sid'"
  "queued (callbackRejected pid sid s) p sid' = queued s p sid'"
  "invoked (callbackFulfilled pid s) p sid' = invoked s p sid'"
  "invoked (callbackRejected pid sid s) p sid' = invoked s p sid'"
  "selectedIn (callbackFulfilled pid s) p sid' = selectedIn s p sid'"
  "selectedIn (callbackRejected pid sid s) p sid' = selectedIn s p sid'"
  using callback_end_trace(1) [of pid s] callback_end_trace(2) [of pid sid s]
  by (auto simp: queued_def invoked_def selectedIn_def)

lemma delete_tracking [simp]:
  "queued (deleteSubscription sub s) p sid' = queued s p sid'"
  "invoked (deleteSubscription sub s) p sid' = invoked s p sid'"
  "selectedIn (deleteSubscription sub s) p sid' = selectedIn s p sid'"
  by (simp_all add: queued_def invoked_def selectedIn_def)

lemma resumeCallback_unfold:
  assumes "handler (subscription m) = Handler isAsync body"
  shows "resumeCallback re pid tp ar m s =
    (let s1 = emit (Invoked pid (ident (subscription m)) (fullArgs ar m tp)) s;
         r = exec re (Invocation pid (ident (subscription m))) (\<not> isAsync) body s1
     in if snd r then callbackRejected pid (ident (subscription m)) (fst r)
        else callbackFulfilled pid
               (if once (subscription m) then deleteSubscription (subscription m) (fst r)
                else fst r))"
  by (simp add: resumeCallback_def Let_def assms split: prod.splits)

lemma resumeCallback_tracked:
  assumes tr: "tracked s" and q: "immediates s = CallbackResume pid tp ar m # ts"
  shows "tracked (resumeCallback re pid tp ar m (s\<lparr>immediates := ts\<rparr>))"
proof -
  obtain isAsync body where h: "handler (subscription m) = Handler isAsync body"
    by (cases "handler (subscription m)")
  define s1 where
    "s1 = emit (Invoked pid (ident (subscription m)) (fullArgs ar m tp)) (s\<lparr>immediates := ts\<rparr>)"
  define s2 where "s2 = fst (exec re (Invocation pid (ident (subscription m))) (\<not> isAsync) body s1)"
  have q1: "queued s1 p i \<Longrightarrow> queued s p i" for p i
    by (auto simp: queued_def s1_def q)
  have q1': "queued s p i \<Longrightarrow> queued s1 p i \<or> (p = pid \<and> i = ident (subscription m))" for p i
    by (auto simp: queued_def s1_def q)
  have i1: "invoked s1 p i = (invoked s p i \<or> (p = pid \<and> i = ident (subscription m)))" for p i
    by (auto simp: invoked_def s1_def)
  have sel1: "selectedIn s1 p i = selectedIn s p i" for p i
    by (auto simp: selectedIn_def s1_def)
  have "queued s pid (ident (subscription m))"
    unfolding queued_def q by (intro exI [of _ tp] exI [of _ ar] exI [of _ m]) simp
  with tr have here: "selectedIn s pid (ident (subscription m))"
    unfolding tracked_def by blast
  have t1: "tracked s1"
    unfolding tracked_def
  proof (intro allI conjI impI)
    fix p i
    show "selectedIn s1 p i" if "queued s1 p i"
      using that q1 tr by (auto simp: tracked_def sel1)
    show "selectedIn s1 p i" if "invoked s1 p i"
      using that tr here by (auto simp: tracked_def sel1 i1)
    show "invoked s1 p i \<or> queued s1 p i" if "selectedIn s1 p i"
      using that tr q1' [of p i] by (auto simp: tracked_def sel1 i1)
  qed
  have t2: "tracked s2"
    using t1 unfolding s2_def by (rule tracked_grows) (rule exec_grows)
  show ?thesis
    using t2
    by (simp add: resumeCallback_unfold [OF h] Let_def s1_def [symmetric] s2_def [symmetric]
        tracked_def)
qed


lemma promise_update_fields [simp]:
  "immediates (fulfil pid s) = immediates s"
  "immediates (reject pid r s) = immediates s"
  "immediates (setPromise pid st s) = immediates s"
  "subscriptions (fulfil pid s) = subscriptions s"
  "subscriptions (reject pid r s) = subscriptions s"
  "subscriptions (setPromise pid st s) = subscriptions s"
  "trace (fulfil pid s) = trace s @ [Decremented pid, PubFulfilled pid]"
  "trace (reject pid r s) = trace s @ [PubRejected pid r]"
  "trace (setPromise pid st s) = trace s"
  by (simp_all add: prim_defs)

lemma resumePub_tracked:
  assumes tr: "tracked s" and q: "immediates s = PubResume pid tp a # ts"
  shows "tracked (resumePub re pid tp a (s\<lparr>immediates := ts\<rparr>))"
proof (cases "filterSubs re (subscriptions s) tp")
  case (Inl e)
  let ?s' = "resumePub re pid tp a (s\<lparr>immediates := ts\<rparr>)"
  have "queued ?s' p i = queued s p i" "invoked ?s' p i = invoked s p i"
    "selectedIn ?s' p i = selectedIn s p i" for p i
    using Inl by (auto simp: resumePub_def queued_def invoked_def selectedIn_def q)
  with tr show ?thesis by (simp add: tracked_def)
next
  case (Inr ms)
  let ?s' = "resumePub re pid tp a (s\<lparr>immediates := ts\<rparr>)"
  let ?sel = "map (\<lambda>m. ident (subscription m)) ms"
  have qd: "queued ?s' p i = (queued s p i \<or> (p = pid \<and> i \<in> set ?sel))" for p i
    using Inr by (auto simp: resumePub_def queued_def q Let_def)
  have iv: "invoked ?s' p i = invoked s p i" for p i
    using Inr by (auto simp: resumePub_def invoked_def Let_def)
  have sl: "selectedIn ?s' p i = (selectedIn s p i \<or> (p = pid \<and> i \<in> set ?sel))" for p i
    using Inr by (auto simp: resumePub_def selectedIn_def Let_def)
  from tr show ?thesis
    unfolding tracked_def qd iv sl by blast
qed

lemma process_tracked:
  assumes "tracked s" and "immediates s = t # ts"
  shows "tracked (process re t (s\<lparr>immediates := ts\<rparr>))"
proof (cases t)
  case (PubResume pid tp a)
  with assms show ?thesis by (simp add: process_def resumePub_tracked)
next
  case (CallbackResume pid tp a m)
  with assms show ?thesis by (simp add: process_def resumeCallback_tracked)
next
  case (ScriptResume ow sc)
  have "queued (s\<lparr>immediates := ts\<rparr>) p i = queued s p i"
    "invoked (s\<lparr>immediates := ts\<rparr>) p i = invoked s p i"
    "selectedIn (s\<lparr>immediates := ts\<rparr>) p i = selectedIn s p i" for p i
    using assms(2) ScriptResume by (auto simp: queued_def invoked_def selectedIn_def)
  with assms(1) have "tracked (s\<lparr>immediates := ts\<rparr>)" by (simp add: tracked_def)
  then show ?thesis
    using exec_grows [of "s\<lparr>immediates := ts\<rparr>" re ow False sc] ScriptResume
    by (auto simp: process_def intro: tracked_grows)
qed

lemma step_tracked: "tracked s \<Longrightarrow> tracked (step re s)"
  by (cases "immediates s") (simp_all add: step_def process_tracked)

lemma run_tracked: "tracked s \<Longrightarrow> tracked (run re n s)"
  by (induction n arbitrary: s) (simp_all add: step_tracked)

lemma start_tracked: "tracked (start re main)"
proof -
  have "tracked initialState"
    by (simp add: tracked_def queued_def invoked_def selectedIn_def initialState_def)
  then show ?thesis
    unfolding start_def by (rule tracked_grows) (rule exec_grows)
qed

lemma reachable_tracked: "tracked (run re n (start re main))"
  by (rule run_tracked) (rule start_tracked)

section \<open>A publish that has returned is fulfilled\<close>

lemma grows_returned: "grows s s' \<Longrightarrow> returned s' pid = returned s pid"
  by (fastforce simp: grows_def returned_def)

lemma settledPromises_grows:
  assumes "settledPromises s" and "grows s s'"
  shows "settledPromises s'"
  unfolding settledPromises_def
proof (intro allI impI)
  fix pid
  assume "returned s' pid"
  then have "returned s pid" using assms(2) by (simp add: grows_returned)
  with assms(1) have f: "promiseOf s pid = Some Fulfilled" by (simp add: settledPromises_def)
  then have "pid < length (promises s)" by (simp add: promiseOf_def split: if_splits)
  with f assms(2) show "promiseOf s' pid = Some Fulfilled" by (simp add: grows_promiseOf)
qed

lemma resumePub_settled:
  assumes sp: "settledPromises s" and c: "consistent s"
    and q: "immediates s = PubResume pid tp a # ts"
  shows "settledPromises (resumePub re pid tp a (s\<lparr>immediates := ts\<rparr>))"
proof -
  from c have "consistentAt s pid" by (simp add: consistent_def)
  with q have st: "pid < length (promises s)" "promises s ! pid = Started"
    by (auto simp: consistentAt_def promiseOf_def split: if_splits promiseState.splits)
  with sp have nr: "\<not> returned s pid"
    by (auto simp: settledPromises_def promiseOf_def)
  from sp have old: "returned s p \<Longrightarrow> p < length (promises s) \<and> promises s ! p = Fulfilled" for p
    by (auto simp: settledPromises_def promiseOf_def split: if_splits)
  show ?thesis
    unfolding settledPromises_def
  proof (intro allI impI)
    fix p
    assume r: "returned (resumePub re pid tp a (s\<lparr>immediates := ts\<rparr>)) p"
    show "promiseOf (resumePub re pid tp a (s\<lparr>immediates := ts\<rparr>)) p = Some Fulfilled"
    proof (cases "p = pid")
      case True
      with r nr st show ?thesis
        by (auto simp: resumePub_def returned_def promiseOf_def prim_defs Let_def
            split: sum.splits if_splits)
    next
      case False
      with r have "returned s p"
        by (auto simp: resumePub_def returned_def Let_def split: sum.splits if_splits)
      from old [OF this] False show ?thesis
        by (auto simp: resumePub_def promiseOf_def prim_defs Let_def split: sum.splits)
    qed
  qed
qed

lemma callback_end_settled:
  assumes sp: "settledPromises s"
  shows "settledPromises (callbackFulfilled pid s) \<and> settledPromises (callbackRejected pid sid s)"
proof -
  from sp have old: "returned s p \<Longrightarrow> p < length (promises s) \<and> promises s ! p = Fulfilled" for p
    by (auto simp: settledPromises_def promiseOf_def split: if_splits)
  have "promiseOf (callbackFulfilled pid s) p = Some Fulfilled"
    if "returned (callbackFulfilled pid s) p" for p
  proof (cases "promiseOf s pid")
    case None
    with that old [of p] show ?thesis
      by (auto simp: callbackFulfilled_def promiseOf_def)
  next
    case (Some st)
    show ?thesis
    proof (cases st)
      case (Waiting k)
      with Some have w: "pid < length (promises s)" "promises s ! pid = Waiting k"
        by (auto simp: promiseOf_def split: if_splits)
      with old [of pid] have nr: "\<not> returned s pid" by auto
      show ?thesis
      proof (cases "p = pid")
        case True
        with that nr w Some Waiting show ?thesis
          by (auto simp: callbackFulfilled_def returned_def promiseOf_def prim_defs
              split: if_splits)
      next
        case False
        with that Some Waiting have "returned s p"
          by (auto simp: callbackFulfilled_def returned_def prim_defs split: if_splits)
        from old [OF this] False Some Waiting show ?thesis
          by (auto simp: callbackFulfilled_def promiseOf_def prim_defs)
      qed
    qed (use that old [of p] Some in \<open>auto simp: callbackFulfilled_def promiseOf_def\<close>)
  qed
  moreover have "promiseOf (callbackRejected pid sid s) p = Some Fulfilled"
    if "returned (callbackRejected pid sid s) p" for p
  proof (cases "promiseOf s pid")
    case None
    with that old [of p] show ?thesis
      by (auto simp: callbackRejected_def promiseOf_def)
  next
    case (Some st)
    show ?thesis
    proof (cases st)
      case (Waiting k)
      with Some have w: "pid < length (promises s)" "promises s ! pid = Waiting k"
        by (auto simp: promiseOf_def split: if_splits)
      with old [of pid] have nr: "\<not> returned s pid" by auto
      from that Some Waiting have "returned s p"
        by (auto simp: callbackRejected_def returned_def prim_defs)
      with nr have "p \<noteq> pid" by auto
      with old [OF \<open>returned s p\<close>] Some Waiting show ?thesis
        by (auto simp: callbackRejected_def promiseOf_def prim_defs)
    qed (use that old [of p] Some in \<open>auto simp: callbackRejected_def promiseOf_def\<close>)
  qed
  ultimately show ?thesis by (simp add: settledPromises_def)
qed

lemma settledPromises_cong:
  "promises s' = promises s \<Longrightarrow> (\<And>p. returned s' p = returned s p) \<Longrightarrow>
   settledPromises s \<Longrightarrow> settledPromises s'"
  by (auto simp: settledPromises_def promiseOf_def split: if_splits)

lemma resumeCallback_settled:
  assumes sp: "settledPromises s"
  shows "settledPromises (resumeCallback re pid tp ar m (s\<lparr>immediates := ts\<rparr>))"
proof -
  obtain isAsync body where h: "handler (subscription m) = Handler isAsync body"
    by (cases "handler (subscription m)")
  define s1 where
    "s1 = emit (Invoked pid (ident (subscription m)) (fullArgs ar m tp)) (s\<lparr>immediates := ts\<rparr>)"
  define s2 where "s2 = fst (exec re (Invocation pid (ident (subscription m))) (\<not> isAsync) body s1)"
  have "settledPromises s1"
    using sp by (rule settledPromises_cong [rotated 2]) (auto simp: s1_def returned_def)
  then have 2: "settledPromises s2"
    unfolding s2_def by (rule settledPromises_grows) (rule exec_grows)
  then have 3: "settledPromises (deleteSubscription (subscription m) s2)"
    by (rule settledPromises_cong [rotated 2]) (auto simp: returned_def)
  show ?thesis
    using callback_end_settled [OF 2] callback_end_settled [OF 3]
    by (simp add: resumeCallback_unfold [OF h] Let_def s1_def [symmetric] s2_def [symmetric])
qed

lemma process_settled:
  assumes "settledPromises s" and "consistent s" and "immediates s = t # ts"
  shows "settledPromises (process re t (s\<lparr>immediates := ts\<rparr>))"
proof (cases t)
  case (PubResume pid tp a)
  with assms show ?thesis by (simp add: process_def resumePub_settled)
next
  case (CallbackResume pid tp a m)
  with assms show ?thesis by (simp add: process_def resumeCallback_settled)
next
  case (ScriptResume ow sc)
  have "settledPromises (s\<lparr>immediates := ts\<rparr>)"
    using assms(1) by (rule settledPromises_cong [rotated 2]) (auto simp: returned_def)
  then show ?thesis
    using exec_grows [of "s\<lparr>immediates := ts\<rparr>" re ow False sc] ScriptResume
    by (auto simp: process_def intro: settledPromises_grows)
qed

lemma step_settled: "settledPromises s \<Longrightarrow> consistent s \<Longrightarrow> settledPromises (step re s)"
  by (cases "immediates s") (simp_all add: step_def process_settled)

lemma run_settled:
  "settledPromises s \<Longrightarrow> consistent s \<Longrightarrow> accounted s \<Longrightarrow> settledPromises (run re n s)"
proof (induction n arbitrary: s)
  case 0
  then show ?case by simp
next
  case (Suc n)
  from Suc.prems step_sound [of s re] have "consistent (step re s)" "accounted (step re s)"
    by simp_all
  with Suc show ?case by (simp add: step_settled)
qed

lemma reachable_settled: "settledPromises (run re n (start re main))"
proof -
  have "settledPromises initialState"
    by (simp add: settledPromises_def returned_def initialState_def)
  then have "settledPromises (start re main)"
    unfolding start_def by (rule settledPromises_grows) (rule exec_grows)
  then show ?thesis
    using start_sound [of re main] by (simp add: run_settled)
qed


section \<open>Selections name subscriptions created before\<close>

lemma mapE_Inr: "mapE f xs = Inr ys \<Longrightarrow> list_all2 (\<lambda>x y. f x = Inr y) xs ys"
  by (induction xs arbitrary: ys) (auto split: sum.splits)

lemma subscriptionMatch_subscription:
  "subscriptionMatch re tp sub = Inr m \<Longrightarrow> subscription m = sub"
  by (auto simp: subscriptionMatch_def split: option.splits sum.splits)

lemma filterSubs_subset:
  assumes "filterSubs re subs tp = Inr ms" and "m \<in> set ms"
  shows "subscription m \<in> set subs"
proof -
  from assms(1) obtain all where all: "mapE (subscriptionMatch re tp) subs = Inr all"
    and ms: "ms = filter isMatch all"
    by (auto simp: filterSubs_def split: sum.splits)
  from mapE_Inr [OF all] have "list_all2 (\<lambda>x y. subscription y = x) subs all"
    by (rule list_all2_mono) (rule subscriptionMatch_subscription)
  moreover from assms(2) ms have "m \<in> set all" by simp
  ultimately show ?thesis
    by (auto simp: list_all2_conv_all_nth in_set_conv_nth)
qed


lemma fold_delete_subset:
  "set (subscriptions (fold (\<lambda>m. deleteSubscription (subscription m)) ms s)) \<subseteq> set (subscriptions s)"
proof (induction ms arbitrary: s)
  case Nil
  then show ?case by simp
next
  case (Cons m ms)
  have "set (subscriptions (fold (\<lambda>m. deleteSubscription (subscription m)) ms
            (deleteSubscription (subscription m) s)))
        \<subseteq> set (subscriptions (deleteSubscription (subscription m) s))"
    by (rule Cons.IH)
  also have "\<dots> \<subseteq> set (subscriptions s)"
    by (auto simp: deleteSubscription_def)
  finally show ?case by simp
qed















section \<open>Every queued callback runs\<close>

lemma grows_queue: "grows s s' \<Longrightarrow> \<exists>new. immediates s' = immediates s @ new"
  by (auto simp: grows_def)

lemma grows_trace: "grows s s' \<Longrightarrow> \<exists>evs. trace s' = trace s @ evs"
  by (auto simp: grows_def)

lemma resumeCallback_extends:
  "\<exists>new evs. immediates (resumeCallback re pid tp ar m s) = immediates s @ new \<and>
     trace (resumeCallback re pid tp ar m s) =
       trace s @ Invoked pid (ident (subscription m)) (fullArgs ar m tp) # evs"
proof -
  obtain isAsync body where h: "handler (subscription m) = Handler isAsync body"
    by (cases "handler (subscription m)")
  define s1 where "s1 = emit (Invoked pid (ident (subscription m)) (fullArgs ar m tp)) s"
  define s2 where "s2 = fst (exec re (Invocation pid (ident (subscription m))) (\<not> isAsync) body s1)"
  have g: "grows s1 s2" unfolding s2_def by (rule exec_grows)
  from grows_queue [OF g] obtain new where new: "immediates s2 = immediates s @ new"
    by (auto simp: s1_def)
  from grows_trace [OF g] obtain evs where evs:
    "trace s2 = trace s @ Invoked pid (ident (subscription m)) (fullArgs ar m tp) # evs"
    by (auto simp: s1_def)
  obtain e1 where e1: "trace (callbackFulfilled pid s2) = trace s2 @ e1"
    using callback_end_trace(1) by blast
  obtain e2 where e2: "trace (callbackFulfilled pid (deleteSubscription (subscription m) s2)) =
      trace s2 @ e2"
    using callback_end_trace(1) [of pid "deleteSubscription (subscription m) s2"] by auto
  obtain e3 where e3: "trace (callbackRejected pid (ident (subscription m)) s2) = trace s2 @ e3"
    using callback_end_trace(2) by blast
  show ?thesis
    by (simp add: resumeCallback_unfold [OF h] Let_def s1_def [symmetric] s2_def [symmetric]
        new evs e1 e2 e3)
qed

lemma process_extends:
  "\<exists>new evs. immediates (process re t s) = immediates s @ new \<and> trace (process re t s) = trace s @ evs"
proof (cases t)
  case (PubResume pid tp a)
  then show ?thesis
    by (cases "filterSubs re (subscriptions s) tp") (auto simp: process_def resumePub_def Let_def)
next
  case (CallbackResume pid tp a m)
  with resumeCallback_extends [of re pid tp a m s] show ?thesis
    by (auto simp: process_def)
next
  case (ScriptResume ow sc)
  with exec_grows [of s re ow False sc] show ?thesis
    by (auto simp: process_def grows_def)
qed

lemma step_queue:
  "immediates s = t # ts \<Longrightarrow> \<exists>new. immediates (step re s) = ts @ new"
  using process_extends [of re t "s\<lparr>immediates := ts\<rparr>"] by (auto simp: step_def)

lemma step_trace: "\<exists>evs. trace (step re s) = trace s @ evs"
proof (cases "immediates s")
  case Nil
  then show ?thesis by (simp add: step_def)
next
  case (Cons t ts)
  with process_extends [of re t "s\<lparr>immediates := ts\<rparr>"] show ?thesis
    by (auto simp: step_def)
qed

lemma run_trace: "\<exists>evs. trace (run re n s) = trace s @ evs"
proof (induction n arbitrary: s)
  case 0
  then show ?case by simp
next
  case (Suc n)
  from step_trace [of re s] obtain e1 where "trace (step re s) = trace s @ e1" by blast
  moreover from Suc [of "step re s"] obtain e2 where
    "trace (run re n (step re s)) = trace (step re s) @ e2" by blast
  ultimately show ?case by simp
qed

lemma run_step: "run re (Suc n) s = step re (run re n s)"
  by (induction n arbitrary: s) simp_all

lemma run_add: "run re (a + b) s = run re b (run re a s)"
  by (induction a arbitrary: s) simp_all

lemma run_queue:
  "k \<le> length (immediates s) \<Longrightarrow> \<exists>new. immediates (run re k s) = drop k (immediates s) @ new"
proof (induction k arbitrary: s)
  case 0
  then show ?case by simp
next
  case (Suc k)
  then obtain t ts where q: "immediates s = t # ts" by (cases "immediates s") auto
  from step_queue [OF q] obtain new where new: "immediates (step re s) = ts @ new" by blast
  from Suc.prems q have k: "k \<le> length ts" by simp
  with new have "k \<le> length (immediates (step re s))" by simp
  from Suc.IH [OF this] obtain new' where
    "immediates (run re k (step re s)) = drop k (immediates (step re s)) @ new'" by blast
  with new k q show ?case by simp
qed

lemma invoked_run: "invoked s pid sid \<Longrightarrow> invoked (run re n s) pid sid"
  using run_trace [of re n s] by (auto simp: invoked_def)

lemma step_invokes:
  assumes "immediates s = CallbackResume pid tp a m # ts"
  shows "invoked (step re s) pid (ident (subscription m))"
  using assms resumeCallback_extends [of re pid tp a m "s\<lparr>immediates := ts\<rparr>"]
  by (auto simp: step_def process_def invoked_def)

lemma queued_runs:
  assumes "queued s pid sid"
  shows "invoked (run re (length (immediates s)) s) pid sid"
proof -
  from assms obtain tp a m where t: "CallbackResume pid tp a m \<in> set (immediates s)"
    and sid: "ident (subscription m) = sid"
    by (auto simp: queued_def)
  from t obtain k where k: "k < length (immediates s)" "immediates s ! k = CallbackResume pid tp a m"
    by (auto simp: in_set_conv_nth)
  from run_queue [of k s re] k(1) obtain new where
    "immediates (run re k s) = drop k (immediates s) @ new" by auto
  with k have "immediates (run re k s) =
      CallbackResume pid tp a m # (drop (Suc k) (immediates s) @ new)"
    by (simp add: Cons_nth_drop_Suc [symmetric])
  from step_invokes [OF this] sid have "invoked (run re (Suc k) s) pid sid"
    by (simp only: run_step)
  define n where "n = length (immediates s) - Suc k"
  have len: "length (immediates s) = Suc k + n"
    using k(1) by (simp add: n_def)
  from \<open>invoked (run re (Suc k) s) pid sid\<close>
  have "invoked (run re n (run re (Suc k) s)) pid sid"
    by (rule invoked_run)
  then have "invoked (run re (Suc k + n) s) pid sid"
    by (simp only: run_add)
  then show ?thesis by (simp only: len)
qed

lemma selected_runs:
  assumes "tracked s" and "selectedIn s pid sid"
  shows "invoked (run re (length (immediates s)) s) pid sid"
proof -
  from assms have "invoked s pid sid \<or> queued s pid sid"
    unfolding tracked_def by blast
  then show ?thesis
    using invoked_run queued_runs by blast
qed

section \<open>Handlers that return a promise never reject a publish\<close>

lemma raise_async [simp]: "snd (raise ow False s) = False"
  by (simp add: raise_def)

lemma exec_returns: "\<not> sync \<Longrightarrow> \<not> snd (exec re ow sync sc s)"
  by (induction re ow sync sc s rule: exec.induct) (auto split: sum.splits)

lemma allAsync_same:
  "set (subscriptions s') \<subseteq> set (subscriptions s) \<Longrightarrow> set (immediates s') \<subseteq> set (immediates s) \<Longrightarrow>
   allAsync s \<Longrightarrow> allAsync s'"
  unfolding allAsync_def by blast

lemma allAsync_settle: "allAsync s \<Longrightarrow> allAsync (settle ow ok s)"
  by (auto simp: allAsync_def settle_def emit_def split: owner.splits)

lemma allAsync_raise: "allAsync s \<Longrightarrow> allAsync (fst (raise ow sync s))"
  by (simp add: raise_def allAsync_settle)

lemma exec_allAsync:
  "allAsync s \<Longrightarrow> asyncOnly sc \<Longrightarrow> allAsync (fst (exec re ow sync sc s))"
proof (induction re ow sync sc s rule: exec.induct)
  case (1 re ow sync s)
  then show ?case by (simp add: allAsync_settle)
next
  case (2 re ow sync s)
  then show ?case by (simp add: allAsync_raise)
next
  case (3 re ow sync rest s)
  then show ?case by (auto simp: allAsync_def setImmediate_def)
next
  case (4 re ow sync rest s)
  then show ?case by (auto simp: allAsync_def emit_def)
next
  case (5 re ow sync tp h oc rest s)
  show ?case
  proof (cases "new_BasePathMatcher tp")
    case (Inl e)
    from 5(2) have "allAsync (emit (SubscribeFailed e) s)" by (simp add: allAsync_def)
    with Inl show ?thesis by (simp add: allAsync_raise)
  next
    case (Inr M)
    from 5(2,3) have "allAsync (addSubscription tp M h oc s)"
      by (auto simp: allAsync_def addSubscription_def emit_def)
    with 5 Inr show ?thesis by simp
  qed
next
  case (6 re ow sync tp rest s)
  show ?case
  proof (cases "filterSubs re (subscriptions s) tp")
    case (Inl e)
    with 6 show ?thesis by (simp add: allAsync_raise)
  next
    case (Inr ms)
    have "allAsync (fold (\<lambda>m. deleteSubscription (subscription m)) ms s)"
      using _ _ 6(2) by (rule allAsync_same) (simp_all add: fold_delete_subset)
    with 6 Inr show ?thesis by simp
  qed
next
  case (7 re ow sync tp a rest s)
  from 7(2) have "allAsync (callPub tp a s)"
    by (auto simp: allAsync_def callPub_def setImmediate_def emit_def)
  with 7 show ?case by simp
qed

lemma grows_handlerRejected: "grows s s' \<Longrightarrow> handlerRejected s' pid = handlerRejected s pid"
  by (fastforce simp: grows_def handlerRejected_def)

lemma resumePub_quiet:
  assumes "quiet s" and "immediates s = PubResume pid tp a # ts"
  shows "quiet (resumePub re pid tp a (s\<lparr>immediates := ts\<rparr>))"
proof (cases "filterSubs re (subscriptions s) tp")
  case (Inl e)
  with assms show ?thesis
    by (auto simp: quiet_def allAsync_def handlerRejected_def resumePub_def)
next
  case (Inr ms)
  from assms have sub: "\<forall>sub \<in> set (subscriptions s). asyncHandler (handler sub)"
    and old: "\<forall>t \<in> set ts. asyncTask t" and nr: "\<And>p. \<not> handlerRejected s p"
    by (auto simp: quiet_def allAsync_def)
  have new: "asyncTask (CallbackResume pid tp a m)" if "m \<in> set ms" for m
    using filterSubs_subset [OF Inr that] sub by simp
  have "handlerRejected (resumePub re pid tp a (s\<lparr>immediates := ts\<rparr>)) p = handlerRejected s p" for p
    using Inr by (auto simp: resumePub_def handlerRejected_def Let_def)
  moreover have "allAsync (resumePub re pid tp a (s\<lparr>immediates := ts\<rparr>))"
    using Inr sub old new by (auto simp: resumePub_def allAsync_def Let_def)
  ultimately show ?thesis using nr by (simp add: quiet_def)
qed

lemma resumeCallback_quiet:
  assumes "quiet s" and "immediates s = CallbackResume pid tp ar m # ts"
  shows "quiet (resumeCallback re pid tp ar m (s\<lparr>immediates := ts\<rparr>))"
proof -
  from assms have "asyncHandler (handler (subscription m))"
    by (auto simp: quiet_def allAsync_def)
  then obtain body where h: "handler (subscription m) = Handler True body" and body: "asyncOnly body"
    by (cases "handler (subscription m)") auto
  define s1 where
    "s1 = emit (Invoked pid (ident (subscription m)) (fullArgs ar m tp)) (s\<lparr>immediates := ts\<rparr>)"
  define r where "r = exec re (Invocation pid (ident (subscription m))) False body s1"
  define s2 where "s2 = fst r"
  have nt: "\<not> snd r" unfolding r_def by (rule exec_returns) simp
  from assms have a1: "allAsync s1" and n1: "\<And>p. \<not> handlerRejected s1 p"
    by (auto simp: quiet_def allAsync_def handlerRejected_def s1_def)
  have a2: "allAsync s2" unfolding s2_def r_def using a1 body by (rule exec_allAsync)
  have n2: "\<not> handlerRejected s2 p" for p
    using n1 exec_grows [of s1 re "Invocation pid (ident (subscription m))" False body]
    by (simp add: s2_def r_def grows_handlerRejected)
  define s3 where
    "s3 = (if once (subscription m) then deleteSubscription (subscription m) s2 else s2)"
  have a3: "allAsync s3"
    using _ _ a2 by (rule allAsync_same) (auto simp: s3_def deleteSubscription_def)
  have n3: "\<not> handlerRejected s3 p" for p
    using n2 [of p] by (simp add: s3_def handlerRejected_def)
  obtain evs where evs: "trace (callbackFulfilled pid s3) = trace s3 @ evs"
    "set evs \<subseteq> {Decremented pid, PubFulfilled pid}"
    using callback_end_trace(1) by blast
  have "allAsync (callbackFulfilled pid s3)"
    using _ _ a3 by (rule allAsync_same) simp_all
  moreover have "\<not> handlerRejected (callbackFulfilled pid s3) p" for p
    using n3 [of p] evs by (auto simp: handlerRejected_def)
  moreover have "resumeCallback re pid tp ar m (s\<lparr>immediates := ts\<rparr>) = callbackFulfilled pid s3"
    using nt
    by (simp add: resumeCallback_unfold [OF h] Let_def s1_def [symmetric] r_def [symmetric]
        s2_def [symmetric] s3_def)
  ultimately show ?thesis by (simp add: quiet_def)
qed

lemma step_quiet: "quiet s \<Longrightarrow> quiet (step re s)"
proof (cases "immediates s")
  case Nil
  then show "quiet s \<Longrightarrow> quiet (step re s)" by (simp add: step_def)
next
  case (Cons t ts)
  assume q: "quiet s"
  show "quiet (step re s)"
  proof (cases t)
    case (PubResume pid tp a)
    with Cons q show ?thesis by (simp add: step_def process_def resumePub_quiet)
  next
    case (CallbackResume pid tp a m)
    with Cons q show ?thesis by (simp add: step_def process_def resumeCallback_quiet)
  next
    case (ScriptResume ow sc)
    from q Cons ScriptResume have a: "allAsync (s\<lparr>immediates := ts\<rparr>)" and sc: "asyncOnly sc"
      and n: "\<And>p. \<not> handlerRejected (s\<lparr>immediates := ts\<rparr>) p"
      by (auto simp: quiet_def allAsync_def handlerRejected_def)
    have "allAsync (fst (exec re ow False sc (s\<lparr>immediates := ts\<rparr>)))"
      using a sc by (rule exec_allAsync)
    moreover have "\<not> handlerRejected (fst (exec re ow False sc (s\<lparr>immediates := ts\<rparr>))) p" for p
      using n exec_grows [of "s\<lparr>immediates := ts\<rparr>" re ow False sc]
      by (simp add: grows_handlerRejected)
    ultimately show ?thesis
      using Cons ScriptResume by (simp add: step_def process_def quiet_def)
  qed
qed

lemma reachable_quiet:
  assumes "asyncOnly main"
  shows "quiet (run re n (start re main))"
proof -
  have i: "allAsync initialState" "\<And>p. \<not> handlerRejected initialState p"
    by (simp_all add: allAsync_def handlerRejected_def initialState_def)
  have "allAsync (start re main)"
    unfolding start_def using i(1) assms by (rule exec_allAsync)
  moreover have "\<not> handlerRejected (start re main) p" for p
    using i(2) exec_grows [of initialState re Main False main]
    by (simp add: start_def grows_handlerRejected)
  ultimately have "quiet (start re main)" by (simp add: quiet_def)
  moreover have "quiet s \<Longrightarrow> quiet (run re n s)" for s
    by (induction n arbitrary: s) (simp_all add: step_quiet)
  ultimately show ?thesis by blast
qed


section \<open>Rejections of handlers are logged\<close>

lemma logged_append:
  assumes "logged s" and "trace s' = trace s @ evs"
    and "\<And>pid sid. Settled (Invocation pid sid) False \<notin> set evs"
  shows "logged s'"
  using assms unfolding logged_def by auto

lemma logged_settle: "logged s \<Longrightarrow> logged (settle ow ok s)"
  by (auto simp: logged_def settle_def emit_def split: owner.splits)

lemma logged_raise: "logged s \<Longrightarrow> logged (fst (raise ow sync s))"
  by (simp add: raise_def logged_settle)

lemma exec_logged: "logged s \<Longrightarrow> logged (fst (exec re ow sync sc s))"
proof (induction re ow sync sc s rule: exec.induct)
  case (1 re ow sync s)
  then show ?case by (simp add: logged_settle)
next
  case (2 re ow sync s)
  then show ?case by (simp add: logged_raise)
next
  case (3 re ow sync rest s)
  then show ?case by (simp add: logged_def setImmediate_def)
next
  case (4 re ow sync rest s)
  from 4(2) have "logged (emit (Observed ow (inflightCount s)) s)"
    by (rule logged_append [where evs = "[Observed ow (inflightCount s)]"]) simp_all
  with 4 show ?case by simp
next
  case (5 re ow sync tp h oc rest s)
  show ?case
  proof (cases "new_BasePathMatcher tp")
    case (Inl e)
    from 5(2) have "logged (emit (SubscribeFailed e) s)"
      by (rule logged_append [where evs = "[SubscribeFailed e]"]) simp_all
    with Inl show ?thesis by (simp add: logged_raise)
  next
    case (Inr M)
    from 5(2) have "logged (addSubscription tp M h oc s)"
      by (rule logged_append [where evs = "[Subscribed (nextIdent s) tp]"])
        (simp_all add: addSubscription_def emit_def)
    with 5 Inr show ?thesis by simp
  qed
next
  case (6 re ow sync tp rest s)
  show ?case
  proof (cases "filterSubs re (subscriptions s) tp")
    case (Inl e)
    with 6 show ?thesis by (simp add: logged_raise)
  next
    case (Inr ms)
    from 6(2) have "logged (fold (\<lambda>m. deleteSubscription (subscription m)) ms s)"
      by (rule logged_append [where evs = "[]"]) simp_all
    with 6 Inr show ?thesis by simp
  qed
next
  case (7 re ow sync tp a rest s)
  from 7(2) have "logged (callPub tp a s)"
    by (rule logged_append [where evs = "[PubCalled (length (promises s)) tp]"])
      (simp_all add: callPub_def emit_def setImmediate_def)
  with 7 show ?case by simp
qed

lemma resumePub_trace:
  "\<exists>evs. trace (resumePub re pid tp a s) = trace s @ evs \<and> (\<forall>e \<in> set evs. \<not> userEvent e)"
proof (cases "filterSubs re (subscriptions s) tp")
  case (Inl e)
  then show ?thesis by (simp add: resumePub_def)
next
  case (Inr ms)
  then show ?thesis by (cases "ms = []") (simp_all add: resumePub_def Let_def)
qed

lemma resumePub_logged:
  assumes "logged s"
  shows "logged (resumePub re pid tp a (s\<lparr>immediates := ts\<rparr>))"
proof -
  obtain evs where tr: "trace (resumePub re pid tp a (s\<lparr>immediates := ts\<rparr>)) = trace s @ evs"
    and quiet: "\<forall>e \<in> set evs. \<not> userEvent e"
    using resumePub_trace [of re pid tp a "s\<lparr>immediates := ts\<rparr>"] by auto
  from assms tr show ?thesis
    by (rule logged_append) (use quiet in auto)
qed

lemma callback_end_logged:
  assumes "logged s"
  shows "logged (callbackFulfilled pid s) \<and> logged (callbackRejected pid sid s)"
proof -
  obtain evs where f: "trace (callbackFulfilled pid s) = trace s @ evs"
    "set evs \<subseteq> {Decremented pid, PubFulfilled pid}"
    using callback_end_trace(1) by blast
  obtain evs' where r: "trace (callbackRejected pid sid s) = trace s @ evs'"
    "set evs' \<subseteq> {PubRejected pid (HandlerThrew sid)}"
    using callback_end_trace(2) by blast
  have "logged (callbackFulfilled pid s)"
    using assms f(1) by (rule logged_append) (use f(2) in auto)
  moreover have "logged (callbackRejected pid sid s)"
    using assms r(1) by (rule logged_append) (use r(2) in auto)
  ultimately show ?thesis by simp
qed

lemma resumeCallback_logged:
  assumes "logged s"
  shows "logged (resumeCallback re pid tp ar m (s\<lparr>immediates := ts\<rparr>))"
proof -
  obtain isAsync body where h: "handler (subscription m) = Handler isAsync body"
    by (cases "handler (subscription m)")
  define s1 where
    "s1 = emit (Invoked pid (ident (subscription m)) (fullArgs ar m tp)) (s\<lparr>immediates := ts\<rparr>)"
  define s2 where "s2 = fst (exec re (Invocation pid (ident (subscription m))) (\<not> isAsync) body s1)"
  have "logged s1"
    using assms
    by (rule logged_append [where evs = "[Invoked pid (ident (subscription m)) (fullArgs ar m tp)]"])
      (simp_all add: s1_def)
  then have 2: "logged s2" unfolding s2_def by (rule exec_logged)
  then have 3: "logged (deleteSubscription (subscription m) s2)"
    by (rule logged_append [where evs = "[]"]) simp_all
  show ?thesis
    using callback_end_logged [OF 2] callback_end_logged [OF 3]
    by (simp add: resumeCallback_unfold [OF h] Let_def s1_def [symmetric] s2_def [symmetric])
qed

lemma step_logged: "logged s \<Longrightarrow> logged (step re s)"
proof (cases "immediates s")
  case Nil
  then show "logged s \<Longrightarrow> logged (step re s)" by (simp add: step_def)
next
  case (Cons t ts)
  assume l: "logged s"
  then have l': "logged (s\<lparr>immediates := ts\<rparr>)" by (simp add: logged_def)
  show "logged (step re s)"
  proof (cases t)
    case (PubResume pid tp a)
    with Cons l show ?thesis by (simp add: step_def process_def resumePub_logged)
  next
    case (CallbackResume pid tp a m)
    with Cons l show ?thesis by (simp add: step_def process_def resumeCallback_logged)
  next
    case (ScriptResume ow sc)
    with Cons l' show ?thesis by (simp add: step_def process_def exec_logged)
  qed
qed

lemma reachable_logged: "logged (run re n (start re main))"
proof -
  have "logged initialState" by (simp add: logged_def initialState_def)
  then have "logged (start re main)" unfolding start_def by (rule exec_logged)
  moreover have "logged s \<Longrightarrow> logged (run re n s)" for s
    by (induction n arbitrary: s) (simp_all add: step_logged)
  ultimately show ?thesis by blast
qed

section \<open>The memo of a subscription\<close>

lemma memoEmpty_subset:
  "memoEmpty s \<Longrightarrow> set (subscriptions s') \<subseteq> set (subscriptions s) \<Longrightarrow> memoEmpty s'"
  unfolding memoEmpty_def by blast

lemma memoEmpty_settle: "memoEmpty s \<Longrightarrow> memoEmpty (settle ow ok s)"
  by (auto simp: memoEmpty_def settle_def emit_def split: owner.splits)

lemma memoEmpty_raise: "memoEmpty s \<Longrightarrow> memoEmpty (fst (raise ow sync s))"
  by (simp add: raise_def memoEmpty_settle)

lemma exec_memoEmpty: "memoEmpty s \<Longrightarrow> memoEmpty (fst (exec re ow sync sc s))"
proof (induction re ow sync sc s rule: exec.induct)
  case (1 re ow sync s)
  then show ?case by (simp add: memoEmpty_settle)
next
  case (2 re ow sync s)
  then show ?case by (simp add: memoEmpty_raise)
next
  case (3 re ow sync rest s)
  then show ?case by (simp add: memoEmpty_def setImmediate_def)
next
  case (4 re ow sync rest s)
  then show ?case by (simp add: memoEmpty_def)
next
  case (5 re ow sync tp h oc rest s)
  show ?case
  proof (cases "new_BasePathMatcher tp")
    case (Inl e)
    from 5(2) have "memoEmpty (emit (SubscribeFailed e) s)" by (simp add: memoEmpty_def)
    with Inl show ?thesis by (simp add: memoEmpty_raise)
  next
    case (Inr M)
    from 5(2) have "memoEmpty (addSubscription tp M h oc s)"
      by (auto simp: memoEmpty_def addSubscription_def emit_def)
    with 5 Inr show ?thesis by simp
  qed
next
  case (6 re ow sync tp rest s)
  show ?case
  proof (cases "filterSubs re (subscriptions s) tp")
    case (Inl e)
    with 6 show ?thesis by (simp add: memoEmpty_raise)
  next
    case (Inr ms)
    from 6(2) have "memoEmpty (fold (\<lambda>m. deleteSubscription (subscription m)) ms s)"
      by (rule memoEmpty_subset) (rule fold_delete_subset)
    with 6 Inr show ?thesis by simp
  qed
next
  case (7 re ow sync tp a rest s)
  from 7(2) have "memoEmpty (callPub tp a s)"
    by (simp add: memoEmpty_def callPub_def emit_def setImmediate_def)
  with 7 show ?case by simp
qed

lemma resumePub_subscriptions [simp]:
  "subscriptions (resumePub re pid tp a s) = subscriptions s"
  by (cases "filterSubs re (subscriptions s) tp") (auto simp: resumePub_def Let_def)

lemma resumeCallback_memoEmpty:
  assumes "memoEmpty s"
  shows "memoEmpty (resumeCallback re pid tp ar m (s\<lparr>immediates := ts\<rparr>))"
proof -
  obtain isAsync body where h: "handler (subscription m) = Handler isAsync body"
    by (cases "handler (subscription m)")
  define s1 where
    "s1 = emit (Invoked pid (ident (subscription m)) (fullArgs ar m tp)) (s\<lparr>immediates := ts\<rparr>)"
  define s2 where "s2 = fst (exec re (Invocation pid (ident (subscription m))) (\<not> isAsync) body s1)"
  have "memoEmpty s1" using assms by (simp add: memoEmpty_def s1_def)
  then have 2: "memoEmpty s2" unfolding s2_def by (rule exec_memoEmpty)
  then have 3: "memoEmpty (deleteSubscription (subscription m) s2)"
    by (rule memoEmpty_subset) (auto simp: deleteSubscription_def)
  show ?thesis
    using 2 3
    by (simp add: resumeCallback_unfold [OF h] Let_def s1_def [symmetric] s2_def [symmetric]
        memoEmpty_def)
qed

lemma step_memoEmpty: "memoEmpty s \<Longrightarrow> memoEmpty (step re s)"
proof (cases "immediates s")
  case Nil
  then show "memoEmpty s \<Longrightarrow> memoEmpty (step re s)" by (simp add: step_def)
next
  case (Cons t ts)
  assume l: "memoEmpty s"
  then have l': "memoEmpty (s\<lparr>immediates := ts\<rparr>)" by (simp add: memoEmpty_def)
  show "memoEmpty (step re s)"
  proof (cases t)
    case (PubResume pid tp a)
    with Cons l show ?thesis by (simp add: step_def process_def memoEmpty_def)
  next
    case (CallbackResume pid tp a m)
    with Cons l show ?thesis by (simp add: step_def process_def resumeCallback_memoEmpty)
  next
    case (ScriptResume ow sc)
    with Cons l' show ?thesis by (simp add: step_def process_def exec_memoEmpty)
  qed
qed

lemma reachable_memoEmpty: "memoEmpty (run re n (start re main))"
proof -
  have "memoEmpty initialState" by (simp add: memoEmpty_def initialState_def)
  then have "memoEmpty (start re main)" unfolding start_def by (rule exec_memoEmpty)
  moreover have "memoEmpty s \<Longrightarrow> memoEmpty (run re n s)" for s
    by (induction n arbitrary: s) (simp_all add: step_memoEmpty)
  ultimately show ?thesis by blast
qed


section \<open>Handlers are called before a publish returns\<close>

lemma queued_callbacks: "queued s pid sid \<Longrightarrow> 0 < callbacks pid (immediates s)"
proof -
  have "CallbackResume pid tp a m \<in> set q \<Longrightarrow> 0 < callbacks pid q" for tp a m q
    by (induction q) auto
  then show "queued s pid sid \<Longrightarrow> 0 < callbacks pid (immediates s)"
    by (auto simp: queued_def)
qed

lemma before_old: "e \<in> set tr \<Longrightarrow> before (tr @ evs) e = before tr e"
  by (simp add: before_def takeWhile_append1)

lemma before_new: "e \<notin> set tr \<Longrightarrow> before (tr @ evs) e = tr @ before evs e"
  by (induction tr) (auto simp: before_def)

lemma callsFirst_extend:
  assumes cf: "callsFirst s" and tr: "trace s' = trace s @ evs"
    and quiet: "\<And>pid. Decremented pid \<notin> set evs \<and> PubFulfilled pid \<notin> set evs"
    and sel: "\<And>pid sid. selectedIn s' pid sid \<Longrightarrow> returned s pid \<Longrightarrow> selectedIn s pid sid"
  shows "callsFirst s'"
  unfolding callsFirst_def
proof (intro allI impI)
  fix pid sid e
  assume e: "e \<in> {Decremented pid, PubFulfilled pid}" and here: "e \<in> set (trace s')"
    and s: "selectedIn s' pid sid"
  from e here quiet [of pid] have old: "e \<in> set (trace s)" by (auto simp: tr)
  with e have "returned s pid" by (auto simp: returned_def)
  with s have "selectedIn s pid sid" by (rule sel)
  with cf e old have "calledBefore (trace s) pid sid e" unfolding callsFirst_def by blast
  then show "calledBefore (trace s') pid sid e"
    by (simp add: calledBefore_def tr before_old [OF old])
qed

lemma callsFirst_grows: "callsFirst s \<Longrightarrow> grows s s' \<Longrightarrow> callsFirst s'"
proof -
  assume cf: "callsFirst s" and g: "grows s s'"
  from g obtain evs where tr: "trace s' = trace s @ evs" and u: "\<forall>e \<in> set evs. userEvent e"
    by (auto simp: grows_def)
  from u have "Decremented pid \<notin> set evs \<and> PubFulfilled pid \<notin> set evs" for pid by auto
  with cf tr show "callsFirst s'"
    by (rule callsFirst_extend) (simp add: grows_selectedIn [OF g])
qed

lemma callsFirst_fulfil:
  assumes cf: "callsFirst s" and nr: "\<not> returned s pid"
    and all: "\<And>sid. selectedIn s pid sid \<Longrightarrow> invoked s pid sid"
  shows "callsFirst (fulfil pid s)"
  unfolding callsFirst_def
proof (intro allI impI)
  fix p sid e
  assume e: "e \<in> {Decremented p, PubFulfilled p}" and here: "e \<in> set (trace (fulfil pid s))"
    and s: "selectedIn (fulfil pid s) p sid"
  from s have s': "selectedIn s p sid" by (auto simp: selectedIn_def)
  show "calledBefore (trace (fulfil pid s)) p sid e"
  proof (cases "e \<in> set (trace s)")
    case True
    with cf e s' have "calledBefore (trace s) p sid e" unfolding callsFirst_def by blast
    then show ?thesis by (simp add: calledBefore_def before_old [OF True])
  next
    case False
    with e here have "p = pid" by auto
    with s' all have "invoked s p sid" by simp
    then show ?thesis by (auto simp: calledBefore_def invoked_def before_new [OF False])
  qed
qed

lemma callsFirst_cong:
  "trace s' = trace s \<Longrightarrow> callsFirst s \<Longrightarrow> callsFirst s'"
  by (simp add: callsFirst_def selectedIn_def)

lemma resumePub_callsFirst:
  assumes cf: "callsFirst s" and sp: "settledPromises s" and c: "consistent s" and t: "tracked s"
    and q: "immediates s = PubResume pid tp a # ts"
  shows "callsFirst (resumePub re pid tp a (s\<lparr>immediates := ts\<rparr>))"
proof -
  from c have at: "consistentAt s pid" by (simp add: consistent_def)
  with q have st: "promiseOf s pid = Some Started" and nocb: "callbacks pid (immediates s) = 0"
    by (auto simp: consistentAt_def split: option.splits promiseState.splits)
  with sp have nr: "\<not> returned s pid" by (auto simp: settledPromises_def)
  have cf0: "callsFirst (s\<lparr>immediates := ts\<rparr>)" using _ cf by (rule callsFirst_cong) simp
  show ?thesis
  proof (cases "filterSubs re (subscriptions s) tp")
    case (Inl e)
    have "callsFirst (reject pid (MatchFailed e) (s\<lparr>immediates := ts\<rparr>))"
      using cf by (rule callsFirst_extend [where evs = "[PubRejected pid (MatchFailed e)]"])
        (auto simp: selectedIn_def)
    with Inl show ?thesis by (simp add: resumePub_def)
  next
    case (Inr ms)
    define s2 where "s2 = fold (\<lambda>m. setImmediate (CallbackResume pid tp a m)) ms
        (emit (Selected pid (map (\<lambda>m. ident (subscription m)) ms)) (s\<lparr>immediates := ts\<rparr>))"
    have tr2: "trace s2 = trace s @ [Selected pid (map (\<lambda>m. ident (subscription m)) ms)]"
      by (simp add: s2_def)
    have sel2: "selectedIn s2 p i = (selectedIn s p i \<or> (p = pid \<and> i \<in> ident ` subscription ` set ms))" for p i
      by (auto simp: selectedIn_def tr2)
    have cf2: "callsFirst s2"
      using cf tr2 by (rule callsFirst_extend) (use nr in \<open>auto simp: sel2\<close>)
    have res: "resumePub re pid tp a (s\<lparr>immediates := ts\<rparr>) =
        (if ms = [] then fulfil pid s2 else setPromise pid (Waiting (length ms)) s2)"
      using Inr by (simp add: resumePub_def Let_def s2_def)
    show ?thesis
    proof (cases "ms = []")
      case True
      have nr2: "\<not> returned s2 pid" using nr by (simp add: returned_def tr2)
      have "invoked s2 pid sid" if "selectedIn s2 pid sid" for sid
      proof -
        from that True have "selectedIn s pid sid" by (simp add: sel2)
        with t have "invoked s pid sid \<or> queued s pid sid" unfolding tracked_def by blast
        moreover from nocb queued_callbacks [of s pid sid] have "\<not> queued s pid sid" by auto
        ultimately show ?thesis by (auto simp: invoked_def tr2)
      qed
      with cf2 nr2 have "callsFirst (fulfil pid s2)" by (rule callsFirst_fulfil)
      with True show ?thesis by (simp add: res)
    next
      case False
      with cf2 show ?thesis by (simp add: res callsFirst_def selectedIn_def)
    qed
  qed
qed

lemma only_callback:
  assumes "callbacks pid (t # ts) \<le> 1" and "t = CallbackResume pid tp ar m"
    and "CallbackResume pid tp' ar' m' \<in> set (t # ts)"
  shows "m' = m"
proof -
  from assms(1,2) have "callbacks pid ts = 0" by simp
  then have "CallbackResume pid tp' ar' m' \<notin> set ts"
    by (induction ts) (auto split: if_splits)
  with assms(2,3) show ?thesis by simp
qed

lemma resumeCallback_callsFirst:
  assumes cf: "callsFirst s" and sp: "settledPromises s" and c: "consistent s" and t: "tracked s"
    and q: "immediates s = CallbackResume pid tp ar m # ts"
  shows "callsFirst (resumeCallback re pid tp ar m (s\<lparr>immediates := ts\<rparr>))"
proof -
  obtain isAsync body where h: "handler (subscription m) = Handler isAsync body"
    by (cases "handler (subscription m)")
  define s1 where
    "s1 = emit (Invoked pid (ident (subscription m)) (fullArgs ar m tp)) (s\<lparr>immediates := ts\<rparr>)"
  define r where "r = exec re (Invocation pid (ident (subscription m))) (\<not> isAsync) body s1"
  define s2 where "s2 = fst r"
  define s3 where "s3 = (if once (subscription m) then deleteSubscription (subscription m) s2 else s2)"
  have res: "resumeCallback re pid tp ar m (s\<lparr>immediates := ts\<rparr>) =
      (if snd r then callbackRejected pid (ident (subscription m)) s2
       else callbackFulfilled pid s3)"
    by (simp add: resumeCallback_def Let_def h s1_def r_def s2_def s3_def split: prod.splits)
  have g: "grows s1 s2" unfolding s2_def r_def by (rule exec_grows)
  have tr1: "trace s1 = trace s @ [Invoked pid (ident (subscription m)) (fullArgs ar m tp)]"
    by (simp add: s1_def)
  have cf1: "callsFirst s1"
    using cf tr1 by (rule callsFirst_extend) (auto simp: selectedIn_def tr1)
  then have cf2: "callsFirst s2" using g by (rule callsFirst_grows)
  have tr3: "trace s3 = trace s2" by (simp add: s3_def)
  then have cf3: "callsFirst s3" using cf2 by (rule callsFirst_cong)
  have sel3: "selectedIn s3 p i = selectedIn s p i" for p i
    using grows_selectedIn [OF g, of p i] by (auto simp: selectedIn_def tr3 tr1)
  have inv3: "invoked s3 p i = (invoked s p i \<or> (p = pid \<and> i = ident (subscription m)))" for p i
    using grows_invoked [OF g, of p i] by (auto simp: invoked_def tr3 tr1)
  have ret3: "returned s3 p = returned s p" for p
    using grows_returned [OF g, of p] by (auto simp: returned_def tr3 tr1)
  from c have at: "consistentAt s pid" by (simp add: consistent_def)
  with q have len: "pid < length (promises s)"
    by (auto simp: consistentAt_def promiseOf_def split: if_splits)
  have "promiseOf s1 pid = promiseOf s pid" by (simp add: s1_def promiseOf_def)
  moreover from len have "pid < length (promises s1)" by (simp add: s1_def)
  ultimately have p2: "promiseOf s2 pid = promiseOf s pid"
    using grows_promiseOf [OF g, of pid] by simp
  have "promiseOf s3 pid = promiseOf s2 pid"
    by (rule promiseOf_cong) (simp add: s3_def)
  with p2 have p3: "promiseOf s3 pid = promiseOf s pid" by simp
  show ?thesis
  proof (cases "snd r")
    case True
    from callback_end_trace(2) [of pid "ident (subscription m)" s2] obtain evs where
      trR: "trace (callbackRejected pid (ident (subscription m)) s2) = trace s2 @ evs"
      and evs: "set evs \<subseteq> {PubRejected pid (HandlerThrew (ident (subscription m)))}"
      by blast
    from evs have "Decremented p \<notin> set evs \<and> PubFulfilled p \<notin> set evs" for p by auto
    with cf2 trR have "callsFirst (callbackRejected pid (ident (subscription m)) s2)"
      by (rule callsFirst_extend) simp
    with True show ?thesis by (simp add: res)
  next
    case False
    have "callsFirst (callbackFulfilled pid s3)"
    proof (cases "\<exists>k. promiseOf s3 pid = Some (Waiting k) \<and> k \<le> 1")
      case True
      then obtain k where w: "promiseOf s pid = Some (Waiting k)" and k: "k \<le> 1"
        by (auto simp: p3)
      with sp have nr: "\<not> returned s3 pid" by (auto simp: settledPromises_def ret3)
      from at w k q have one: "callbacks pid (CallbackResume pid tp ar m # ts) \<le> 1"
        by (simp add: consistentAt_def)
      have "invoked s3 pid sid" if "selectedIn s3 pid sid" for sid
      proof -
        from that have "selectedIn s pid sid" by (simp add: sel3)
        with t have "invoked s pid sid \<or> queued s pid sid" unfolding tracked_def by blast
        then show ?thesis
        proof
          assume "invoked s pid sid"
          then show ?thesis by (simp add: inv3)
        next
          assume "queued s pid sid"
          then obtain tp' ar' m' where
            "CallbackResume pid tp' ar' m' \<in> set (CallbackResume pid tp ar m # ts)"
            "ident (subscription m') = sid"
            by (auto simp: queued_def q)
          with only_callback [OF one refl] have "sid = ident (subscription m)" by blast
          then show ?thesis by (simp add: inv3)
        qed
      qed
      with cf3 nr have "callsFirst (fulfil pid s3)" by (rule callsFirst_fulfil)
      with True k w show ?thesis by (auto simp: callbackFulfilled_def p3)
    next
      case False
      then have "trace (callbackFulfilled pid s3) = trace s3"
        by (auto simp: callbackFulfilled_def prim_defs split: option.splits promiseState.splits)
      then show ?thesis using cf3 by (rule callsFirst_cong)
    qed
    with False show ?thesis by (simp add: res)
  qed
qed

lemma step_callsFirst:
  assumes "callsFirst s" and "settledPromises s" and "consistent s" and "tracked s"
  shows "callsFirst (step re s)"
proof (cases "immediates s")
  case Nil
  with assms(1) show ?thesis by (simp add: step_def)
next
  case (Cons t ts)
  show ?thesis
  proof (cases t)
    case (PubResume pid tp a)
    with assms Cons show ?thesis by (simp add: step_def process_def resumePub_callsFirst)
  next
    case (CallbackResume pid tp a m)
    with assms Cons show ?thesis by (simp add: step_def process_def resumeCallback_callsFirst)
  next
    case (ScriptResume ow sc)
    have "callsFirst (s\<lparr>immediates := ts\<rparr>)" using _ assms(1) by (rule callsFirst_cong) simp
    then have "callsFirst (fst (exec re ow False sc (s\<lparr>immediates := ts\<rparr>)))"
      by (rule callsFirst_grows) (rule exec_grows)
    with Cons ScriptResume show ?thesis by (simp add: step_def process_def)
  qed
qed

lemma reachable_callsFirst: "callsFirst (run re n (start re main))"
proof (induction n)
  case 0
  have "callsFirst initialState"
    by (simp add: callsFirst_def initialState_def)
  then have "callsFirst (start re main)"
    unfolding start_def by (rule callsFirst_grows) (rule exec_grows)
  then show ?case by simp
next
  case (Suc n)
  from Suc reachable_settled [of re n main] reachable_sound [of re n main]
    reachable_tracked [of re n main]
  have "callsFirst (step re (run re n (start re main)))"
    by (intro step_callsFirst) simp_all
  then show ?case by (simp only: run_step)
qed

section \<open>The promise of a publish and its events\<close>










section \<open>Where the args of a handler come from\<close>

lemma created_mono: "created s sub \<Longrightarrow> set (trace s) \<subseteq> set (trace s') \<Longrightarrow> created s' sub"
  by (auto simp: created_def)

lemma compiled_mono:
  "compiled s \<Longrightarrow> set (subscriptions s') \<subseteq> set (subscriptions s) \<Longrightarrow>
   set (trace s) \<subseteq> set (trace s') \<Longrightarrow> compiled s'"
  unfolding compiled_def using created_mono by blast

lemma compiled_settle: "compiled s \<Longrightarrow> compiled (settle ow ok s)"
  by (erule compiled_mono) (auto simp: settle_def emit_def split: owner.splits)

lemma compiled_raise: "compiled s \<Longrightarrow> compiled (fst (raise ow sync s))"
  by (simp add: raise_def compiled_settle)

lemma compiled_emit: "compiled s \<Longrightarrow> compiled (emit e s)"
  by (erule compiled_mono) auto

lemma exec_compiled: "compiled s \<Longrightarrow> compiled (fst (exec re ow sync sc s))"
proof (induction re ow sync sc s rule: exec.induct)
  case (1 re ow sync s)
  then show ?case by (simp add: compiled_settle)
next
  case (2 re ow sync s)
  then show ?case by (simp add: compiled_raise)
next
  case (3 re ow sync rest s)
  then show ?case by (auto simp: setImmediate_def elim: compiled_mono)
next
  case (4 re ow sync rest s)
  then show ?case by (simp add: compiled_emit)
next
  case (5 re ow sync tp h oc rest s)
  show ?case
  proof (cases "new_BasePathMatcher tp")
    case (Inl e)
    with 5 show ?thesis by (simp add: compiled_raise compiled_emit)
  next
    case (Inr M)
    from 5(2) have "compiled (addSubscription tp M h oc s)"
      by (auto simp: compiled_def created_def addSubscription_def emit_def Inr)
    with 5 Inr show ?thesis by simp
  qed
next
  case (6 re ow sync tp rest s)
  show ?case
  proof (cases "filterSubs re (subscriptions s) tp")
    case (Inl e)
    with 6 show ?thesis by (simp add: compiled_raise)
  next
    case (Inr ms)
    from 6(2) have "compiled (fold (\<lambda>m. deleteSubscription (subscription m)) ms s)"
      by (rule compiled_mono) (simp_all add: fold_delete_subset)
    with 6 Inr show ?thesis by simp
  qed
next
  case (7 re ow sync tp a rest s)
  from 7(2) have "compiled (callPub tp a s)"
    by (rule compiled_mono) (auto simp: callPub_def setImmediate_def emit_def)
  with 7 show ?case by simp
qed

lemma resumeCallback_compiled:
  assumes "compiled s"
  shows "compiled (resumeCallback re pid tp ar m (s\<lparr>immediates := ts\<rparr>))"
proof -
  obtain isAsync body where h: "handler (subscription m) = Handler isAsync body"
    by (cases "handler (subscription m)")
  define s1 where
    "s1 = emit (Invoked pid (ident (subscription m)) (fullArgs ar m tp)) (s\<lparr>immediates := ts\<rparr>)"
  define s2 where "s2 = fst (exec re (Invocation pid (ident (subscription m))) (\<not> isAsync) body s1)"
  have "compiled s1" using assms by (rule compiled_mono) (auto simp: s1_def)
  then have 2: "compiled s2" unfolding s2_def by (rule exec_compiled)
  then have 3: "compiled (deleteSubscription (subscription m) s2)"
    by (rule compiled_mono) (auto simp: deleteSubscription_def)
  have endF: "compiled (callbackFulfilled pid x)" if "compiled x" for x
  proof -
    from callback_end_trace(1) [of pid x] obtain evs where
      "trace (callbackFulfilled pid x) = trace x @ evs" by blast
    with that show ?thesis by (elim compiled_mono) simp_all
  qed
  have endR: "compiled (callbackRejected pid i x)" if "compiled x" for x i
  proof -
    from callback_end_trace(2) [of pid i x] obtain evs where
      "trace (callbackRejected pid i x) = trace x @ evs" by blast
    with that show ?thesis by (elim compiled_mono) simp_all
  qed
  show ?thesis
    using endF [OF 2] endF [OF 3] endR [OF 2]
    by (simp add: resumeCallback_unfold [OF h] Let_def s1_def [symmetric] s2_def [symmetric])
qed

lemma step_compiled: "compiled s \<Longrightarrow> compiled (step re s)"
proof (cases "immediates s")
  case Nil
  then show "compiled s \<Longrightarrow> compiled (step re s)" by (simp add: step_def)
next
  case (Cons t ts)
  assume l: "compiled s"
  then have l': "compiled (s\<lparr>immediates := ts\<rparr>)" by (rule compiled_mono) simp_all
  show "compiled (step re s)"
  proof (cases t)
    case (PubResume pid tp a)
    have "compiled (resumePub re pid tp a (s\<lparr>immediates := ts\<rparr>))"
      using l
      by (rule compiled_mono)
        (cases "filterSubs re (subscriptions s) tp"; auto simp: resumePub_def Let_def)+
    with Cons PubResume show ?thesis by (simp add: step_def process_def)
  next
    case (CallbackResume pid tp a m)
    with Cons l show ?thesis by (simp add: step_def process_def resumeCallback_compiled)
  next
    case (ScriptResume ow sc)
    with Cons l' show ?thesis by (simp add: step_def process_def exec_compiled)
  qed
qed

lemma reachable_compiled: "compiled (run re n (start re main))"
proof -
  have "compiled initialState" by (simp add: compiled_def initialState_def)
  then have "compiled (start re main)" unfolding start_def by (rule exec_compiled)
  moreover have "compiled s \<Longrightarrow> compiled (run re n s)" for s
    by (induction n arbitrary: s) (simp_all add: step_compiled)
  ultimately show ?thesis by blast
qed

lemma mapE_Inr_mem: "mapE f xs = Inr ys \<Longrightarrow> y \<in> set ys \<Longrightarrow> \<exists>x \<in> set xs. f x = Inr y"
  by (induction xs arbitrary: ys) (auto split: sum.splits)

lemma filterSubs_sourced:
  assumes me: "memoEmpty s" and co: "compiled s"
    and f: "filterSubs re (subscriptions s) tp = Inr ms" and m: "m \<in> set ms"
  shows "sourced re s tp m"
proof -
  from f obtain all where all: "mapE (subscriptionMatch re tp) (subscriptions s) = Inr all"
    and ms: "ms = filter isMatch all"
    by (auto simp: filterSubs_def split: sum.splits)
  from m ms have mall: "m \<in> set all" and im: "isMatch m" by simp_all
  from mapE_Inr_mem [OF all mall] obtain sub where sub: "sub \<in> set (subscriptions s)"
    and sm: "subscriptionMatch re tp sub = Inr m"
    by blast
  from sm have eq: "subscription m = sub" by (rule subscriptionMatch_subscription)
  from me sub have "matchedTopics sub tp = None" by (simp add: memoEmpty_def)
  with sm im have "matchOf re tp m"
    by (auto simp: subscriptionMatch_def matchOf_def eq split: sum.splits)
  moreover from co sub have "created s (subscription m)" by (simp add: compiled_def eq)
  ultimately show ?thesis by (simp add: sourced_def)
qed


lemma grows_no_callback:
  "grows s s' \<Longrightarrow> CallbackResume pid tp a m \<in> set (immediates s') \<Longrightarrow>
   CallbackResume pid tp a m \<in> set (immediates s)"
  using no_callbacks_in by (fastforce simp: grows_def)

lemma grows_no_invoked:
  "grows s s' \<Longrightarrow> Invoked pid sid got \<in> set (trace s') \<Longrightarrow> Invoked pid sid got \<in> set (trace s)"
  by (fastforce simp: grows_def)

lemma callback_end_invoked [simp]:
  "(Invoked p i g \<in> set (trace (callbackFulfilled pid s))) = (Invoked p i g \<in> set (trace s))"
  "(Invoked p i g \<in> set (trace (callbackRejected pid sid s))) = (Invoked p i g \<in> set (trace s))"
  using callback_end_trace(1) [of pid s] callback_end_trace(2) [of pid sid s] by auto

lemma resumeCallback_effect:
  assumes "CallbackResume p tp' a' m' \<in> set (immediates (resumeCallback re pid tp ar m s)) \<or>
           Invoked p i g \<in> set (trace (resumeCallback re pid tp ar m s))"
  shows "(CallbackResume p tp' a' m' \<in> set (immediates (resumeCallback re pid tp ar m s)) \<longrightarrow>
            CallbackResume p tp' a' m' \<in> set (immediates s)) \<and>
         (Invoked p i g \<in> set (trace (resumeCallback re pid tp ar m s)) \<longrightarrow>
            Invoked p i g \<in> set (trace s) \<or>
            (p = pid \<and> i = ident (subscription m) \<and> g = fullArgs ar m tp))"
proof -
  obtain isAsync body where h: "handler (subscription m) = Handler isAsync body"
    by (cases "handler (subscription m)")
  define s1 where "s1 = emit (Invoked pid (ident (subscription m)) (fullArgs ar m tp)) s"
  define s2 where "s2 = fst (exec re (Invocation pid (ident (subscription m))) (\<not> isAsync) body s1)"
  have g: "grows s1 s2" unfolding s2_def by (rule exec_grows)
  have q: "CallbackResume p tp' a' m' \<in> set (immediates s2) \<Longrightarrow>
      CallbackResume p tp' a' m' \<in> set (immediates s)"
    using grows_no_callback [OF g] by (simp add: s1_def)
  have t: "Invoked p i g \<in> set (trace s2) \<Longrightarrow>
      Invoked p i g \<in> set (trace s) \<or> (p = pid \<and> i = ident (subscription m) \<and> g = fullArgs ar m tp)"
    using grows_no_invoked [OF g, of p i g] by (auto simp: s1_def)
  show ?thesis
    using q t
    by (auto simp: resumeCallback_unfold [OF h] Let_def s1_def [symmetric] s2_def [symmetric])
qed

lemma step_callbacks:
  assumes "CallbackResume pid tp a m \<in> set (immediates (step re s))"
  shows "CallbackResume pid tp a m \<in> set (immediates s) \<or>
         (\<exists>ts ms. immediates s = PubResume pid tp a # ts \<and>
            filterSubs re (subscriptions s) tp = Inr ms \<and> m \<in> set ms)"
proof (cases "immediates s")
  case Nil
  with assms show ?thesis by (simp add: step_def)
next
  case (Cons t ts)
  show ?thesis
  proof (cases t)
    case (PubResume pid' tp' a')
    with assms Cons show ?thesis
      by (cases "filterSubs re (subscriptions s) tp'")
        (auto simp: step_def process_def resumePub_def Let_def prim_defs split: if_splits)
  next
    case (CallbackResume pid' tp' a' m')
    with assms Cons
      resumeCallback_effect [where p = pid and tp' = tp and a' = a and m' = m and re = re
        and pid = pid' and tp = tp' and ar = a' and m = m' and s = "s\<lparr>immediates := ts\<rparr>"]
    show ?thesis by (auto simp: step_def process_def)
  next
    case (ScriptResume ow sc)
    with assms Cons grows_no_callback [OF exec_grows [of "s\<lparr>immediates := ts\<rparr>" re ow False sc]]
    show ?thesis by (auto simp: step_def process_def)
  qed
qed

lemma step_invoked:
  assumes "Invoked pid sid got \<in> set (trace (step re s))"
  shows "Invoked pid sid got \<in> set (trace s) \<or>
         (\<exists>tp a m ts. immediates s = CallbackResume pid tp a m # ts \<and>
            sid = ident (subscription m) \<and> got = fullArgs a m tp)"
proof (cases "immediates s")
  case Nil
  with assms show ?thesis by (simp add: step_def)
next
  case (Cons t ts)
  show ?thesis
  proof (cases t)
    case (PubResume pid' tp' a')
    with assms Cons show ?thesis
      by (cases "filterSubs re (subscriptions s) tp'")
        (auto simp: step_def process_def resumePub_def Let_def prim_defs split: if_splits)
  next
    case (CallbackResume pid' tp' a' m')
    with assms Cons
      resumeCallback_effect [where p = pid and i = sid and g = got and re = re and pid = pid'
        and tp = tp' and ar = a' and m = m' and s = "s\<lparr>immediates := ts\<rparr>"]
    show ?thesis by (auto simp: step_def process_def)
  next
    case (ScriptResume ow sc)
    with assms Cons grows_no_invoked [OF exec_grows [of "s\<lparr>immediates := ts\<rparr>" re ow False sc]]
    show ?thesis by (auto simp: step_def process_def)
  qed
qed

lemma called_mono: "called re main n pid tp a \<Longrightarrow> n \<le> n' \<Longrightarrow> called re main n' pid tp a"
  by (auto simp: called_def intro: order_trans)

lemma sourced_step: "sourced re s tp m \<Longrightarrow> sourced re (step re s) tp m"
  using step_trace [of re s] by (auto simp: sourced_def created_def)

lemma reachable_explained: "explained re main n"
proof (induction n)
  case 0
  have g: "grows initialState (start re main)" unfolding start_def by (rule exec_grows)
  have "CallbackResume pid tp a m \<notin> set (immediates (start re main))" for pid tp a m
    using grows_no_callback [OF g, of pid tp a m] by (auto simp: initialState_def)
  moreover have "Invoked pid sid got \<notin> set (trace (start re main))" for pid sid got
    using grows_no_invoked [OF g, of pid sid got] by (auto simp: initialState_def)
  ultimately show ?case by (simp add: explained_def)
next
  case (Suc n)
  let ?s = "run re n (start re main)"
  have nxt: "run re (Suc n) (start re main) = step re ?s" by (rule run_step)
  from Suc have cb: "CallbackResume pid tp a m \<in> set (immediates ?s) \<Longrightarrow>
      called re main n pid tp a \<and> sourced re ?s tp m" for pid tp a m
    by (simp add: explained_def)
  from Suc have iv: "Invoked pid sid got \<in> set (trace ?s) \<Longrightarrow>
      \<exists>tp a m. called re main n pid tp a \<and> sourced re ?s tp m \<and>
        ident (subscription m) = sid \<and> got = fullArgs a m tp" for pid sid got
    by (simp add: explained_def)
  have cb': "called re main (Suc n) pid tp a \<and> sourced re (step re ?s) tp m"
    if "CallbackResume pid tp a m \<in> set (immediates (step re ?s))" for pid tp a m
    using step_callbacks [OF that]
  proof
    assume "CallbackResume pid tp a m \<in> set (immediates ?s)"
    from cb [OF this] show ?thesis
      by (auto intro: called_mono sourced_step)
  next
    assume "\<exists>ts ms. immediates ?s = PubResume pid tp a # ts \<and>
        filterSubs re (subscriptions ?s) tp = Inr ms \<and> m \<in> set ms"
    then obtain ts ms where q: "immediates ?s = PubResume pid tp a # ts"
      and f: "filterSubs re (subscriptions ?s) tp = Inr ms" and m: "m \<in> set ms"
      by blast
    from q have "called re main (Suc n) pid tp a"
      unfolding called_def by (intro exI [of _ n]) simp
    moreover have "sourced re ?s tp m"
      using reachable_memoEmpty reachable_compiled f m by (rule filterSubs_sourced)
    ultimately show ?thesis by (simp add: sourced_step)
  qed
  have iv': "\<exists>tp a m. called re main (Suc n) pid tp a \<and> sourced re (step re ?s) tp m \<and>
        ident (subscription m) = sid \<and> got = fullArgs a m tp"
    if "Invoked pid sid got \<in> set (trace (step re ?s))" for pid sid got
    using step_invoked [OF that]
  proof
    assume "Invoked pid sid got \<in> set (trace ?s)"
    from iv [OF this] obtain tp a m where "called re main n pid tp a" "sourced re ?s tp m"
      "ident (subscription m) = sid" "got = fullArgs a m tp"
      by blast
    then have "called re main (Suc n) pid tp a \<and> sourced re (step re ?s) tp m \<and>
        ident (subscription m) = sid \<and> got = fullArgs a m tp"
      by (auto intro: called_mono sourced_step)
    then show ?thesis by blast
  next
    assume "\<exists>tp a m ts. immediates ?s = CallbackResume pid tp a m # ts \<and>
        sid = ident (subscription m) \<and> got = fullArgs a m tp"
    then obtain tp a m ts where q: "immediates ?s = CallbackResume pid tp a m # ts"
      and sid: "sid = ident (subscription m)" and got: "got = fullArgs a m tp"
      by blast
    from q have "CallbackResume pid tp a m \<in> set (immediates ?s)" by simp
    from cb [OF this] sid got
    have "called re main (Suc n) pid tp a \<and> sourced re (step re ?s) tp m \<and>
        ident (subscription m) = sid \<and> got = fullArgs a m tp"
      by (auto intro: called_mono sourced_step)
    then show ?thesis by blast
  qed
  show ?case
    unfolding explained_def nxt using cb' iv' by blast
qed

lemma numbered_cong:
  assumes "numbered s" and "nextIdent s' = nextIdent s"
    and "\<And>sid pat. (Subscribed sid pat \<in> set (trace s')) = (Subscribed sid pat \<in> set (trace s))"
  shows "numbered s'"
  using assms by (simp add: numbered_def)

lemma numbered_settle: "numbered s \<Longrightarrow> numbered (settle ow ok s)"
  by (erule numbered_cong) (auto simp: settle_def emit_def split: owner.splits)

lemma numbered_raise: "numbered s \<Longrightarrow> numbered (fst (raise ow sync s))"
  by (simp add: raise_def numbered_settle)

lemma exec_numbered: "numbered s \<Longrightarrow> numbered (fst (exec re ow sync sc s))"
proof (induction re ow sync sc s rule: exec.induct)
  case (1 re ow sync s)
  then show ?case by (simp add: numbered_settle)
next
  case (2 re ow sync s)
  then show ?case by (simp add: numbered_raise)
next
  case (3 re ow sync rest s)
  then show ?case by (auto simp: setImmediate_def elim: numbered_cong)
next
  case (4 re ow sync rest s)
  from 4(2) have "numbered (emit (Observed ow (inflightCount s)) s)"
    by (rule numbered_cong) auto
  with 4 show ?case by simp
next
  case (5 re ow sync tp h oc rest s)
  show ?case
  proof (cases "new_BasePathMatcher tp")
    case (Inl e)
    from 5(2) have "numbered (emit (SubscribeFailed e) s)"
      by (rule numbered_cong) auto
    with Inl show ?thesis by (simp add: numbered_raise)
  next
    case (Inr M)
    from 5(2) have "numbered (addSubscription tp M h oc s)"
      by (fastforce simp: numbered_def addSubscription_def emit_def)
    with 5 Inr show ?thesis by simp
  qed
next
  case (6 re ow sync tp rest s)
  show ?case
  proof (cases "filterSubs re (subscriptions s) tp")
    case (Inl e)
    with 6 show ?thesis by (simp add: numbered_raise)
  next
    case (Inr ms)
    from 6(2) have "numbered (fold (\<lambda>m. deleteSubscription (subscription m)) ms s)"
      by (rule numbered_cong) simp_all
    with 6 Inr show ?thesis by simp
  qed
next
  case (7 re ow sync tp a rest s)
  from 7(2) have "numbered (callPub tp a s)"
    by (rule numbered_cong) (auto simp: callPub_def setImmediate_def emit_def)
  with 7 show ?case by simp
qed

lemma callback_end_nextIdent [simp]:
  "nextIdent (callbackFulfilled pid s) = nextIdent s"
  "nextIdent (callbackRejected pid sid s) = nextIdent s"
  by (simp_all add: callbackFulfilled_def callbackRejected_def prim_defs
      split: option.splits promiseState.splits)

lemma callback_end_subscribed [simp]:
  "(Subscribed i pat \<in> set (trace (callbackFulfilled pid s))) = (Subscribed i pat \<in> set (trace s))"
  "(Subscribed i pat \<in> set (trace (callbackRejected pid sid s))) = (Subscribed i pat \<in> set (trace s))"
  using callback_end_trace(1) [of pid s] callback_end_trace(2) [of pid sid s] by auto

lemma resumeCallback_numbered:
  assumes "numbered s"
  shows "numbered (resumeCallback re pid tp ar m (s\<lparr>immediates := ts\<rparr>))"
proof -
  obtain isAsync body where h: "handler (subscription m) = Handler isAsync body"
    by (cases "handler (subscription m)")
  define s1 where
    "s1 = emit (Invoked pid (ident (subscription m)) (fullArgs ar m tp)) (s\<lparr>immediates := ts\<rparr>)"
  define s2 where "s2 = fst (exec re (Invocation pid (ident (subscription m))) (\<not> isAsync) body s1)"
  have "numbered s1" using assms by (rule numbered_cong) (auto simp: s1_def)
  then have 2: "numbered s2" unfolding s2_def by (rule exec_numbered)
  then have 3: "numbered (deleteSubscription (subscription m) s2)"
    by (rule numbered_cong) simp_all
  have endF: "numbered (callbackFulfilled pid x)" if "numbered x" for x
    using that by (rule numbered_cong) simp_all
  have endR: "numbered (callbackRejected pid i x)" if "numbered x" for x i
    using that by (rule numbered_cong) simp_all
  show ?thesis
    using endF [OF 2] endF [OF 3] endR [OF 2]
    by (simp add: resumeCallback_unfold [OF h] Let_def s1_def [symmetric] s2_def [symmetric])
qed

lemma step_numbered: "numbered s \<Longrightarrow> numbered (step re s)"
proof (cases "immediates s")
  case Nil
  then show "numbered s \<Longrightarrow> numbered (step re s)" by (simp add: step_def)
next
  case (Cons t ts)
  assume l: "numbered s"
  then have l': "numbered (s\<lparr>immediates := ts\<rparr>)" by (rule numbered_cong) simp_all
  show "numbered (step re s)"
  proof (cases t)
    case (PubResume pid tp a)
    have "numbered (resumePub re pid tp a (s\<lparr>immediates := ts\<rparr>))"
      using l
      by (rule numbered_cong)
        (cases "filterSubs re (subscriptions s) tp"; auto simp: resumePub_def Let_def prim_defs)+
    with Cons PubResume show ?thesis by (simp add: step_def process_def)
  next
    case (CallbackResume pid tp a m)
    with Cons l show ?thesis by (simp add: step_def process_def resumeCallback_numbered)
  next
    case (ScriptResume ow sc)
    with Cons l' show ?thesis by (simp add: step_def process_def exec_numbered)
  qed
qed

lemma reachable_numbered: "numbered (run re n (start re main))"
proof -
  have "numbered initialState" by (simp add: numbered_def initialState_def)
  then have "numbered (start re main)" unfolding start_def by (rule exec_numbered)
  moreover have "numbered s \<Longrightarrow> numbered (run re n s)" for s
    by (induction n arbitrary: s) (simp_all add: step_numbered)
  ultimately show ?thesis by blast
qed

lemma resumes_member: "PubResume pid tp a \<in> set q \<Longrightarrow> 0 < resumes pid q"
  by (induction q) auto

lemma resumes_unique:
  "resumes pid q \<le> 1 \<Longrightarrow> PubResume pid tp a \<in> set q \<Longrightarrow> PubResume pid tp' a' \<in> set q \<Longrightarrow>
   tp = tp' \<and> a = a'"
proof (induction q)
  case Nil
  then show ?case by simp
next
  case (Cons t q)
  show ?case
  proof (cases "isResumeOf pid t")
    case True
    with Cons.prems(1) have "resumes pid q = 0" by simp
    with resumes_member [of pid _ _ q] have "PubResume pid x y \<notin> set q" for x y by fastforce
    with Cons.prems(2,3) show ?thesis by auto
  next
    case False
    with Cons show ?thesis by auto
  qed
qed

lemma queue_resume_bound:
  assumes "consistent s" and "PubResume pid tp a \<in> set (immediates s)"
  shows "pid < length (promises s)"
proof -
  from assms(1) have "consistentAt s pid" by (simp add: consistent_def)
  with resumes_member [OF assms(2)] show ?thesis
    by (auto simp: consistentAt_def promiseOf_def split: if_splits)
qed

lemma queue_resume_unique:
  assumes "consistent s" and "PubResume pid tp a \<in> set (immediates s)"
    and "PubResume pid tp' a' \<in> set (immediates s)"
  shows "tp = tp' \<and> a = a'"
proof -
  from assms(1) have "consistentAt s pid" by (simp add: consistent_def)
  then have "resumes pid (immediates s) \<le> 1"
    by (auto simp: consistentAt_def split: option.splits promiseState.splits)
  then show ?thesis using assms(2,3) by (rule resumes_unique)
qed

lemma grows_resume:
  assumes "grows s s'" and "PubResume pid tp a \<in> set (immediates s')"
  shows "PubResume pid tp a \<in> set (immediates s) \<or> length (promises s) \<le> pid"
proof -
  from assms(1) obtain new j where q: "immediates s' = immediates s @ new"
    and r: "\<forall>pid. resumes pid new =
        (if length (promises s) \<le> pid \<and> pid < length (promises s) + j then 1 else 0)"
    by (auto simp: grows_def)
  show ?thesis
  proof (cases "PubResume pid tp a \<in> set new")
    case True
    from resumes_member [OF this] r show ?thesis by (auto split: if_splits)
  next
    case False
    with assms(2) q show ?thesis by simp
  qed
qed

lemma callback_end_length [simp]:
  "length (promises (callbackFulfilled pid s)) = length (promises s)"
  "length (promises (callbackRejected pid sid s)) = length (promises s)"
  by (simp_all add: callbackFulfilled_def callbackRejected_def prim_defs
      split: option.splits promiseState.splits)

lemma resumeCallback_resume:
  "length (promises s) \<le> length (promises (resumeCallback re pid tp ar m s)) \<and>
   (PubResume p tp' a' \<in> set (immediates (resumeCallback re pid tp ar m s)) \<longrightarrow>
      PubResume p tp' a' \<in> set (immediates s) \<or> length (promises s) \<le> p)"
proof -
  obtain isAsync body where h: "handler (subscription m) = Handler isAsync body"
    by (cases "handler (subscription m)")
  define s1 where "s1 = emit (Invoked pid (ident (subscription m)) (fullArgs ar m tp)) s"
  define s2 where "s2 = fst (exec re (Invocation pid (ident (subscription m))) (\<not> isAsync) body s1)"
  have g: "grows s1 s2" unfolding s2_def by (rule exec_grows)
  have l: "length (promises s) \<le> length (promises s2)"
    using grows_length [OF g] by (simp add: s1_def)
  have q: "PubResume p tp' a' \<in> set (immediates s2) \<Longrightarrow>
      PubResume p tp' a' \<in> set (immediates s) \<or> length (promises s) \<le> p"
    using grows_resume [OF g, of p tp' a'] by (simp add: s1_def)
  show ?thesis
    using l q
    by (auto simp: resumeCallback_unfold [OF h] Let_def s1_def [symmetric] s2_def [symmetric])
qed

lemma step_resume:
  "length (promises s) \<le> length (promises (step re s)) \<and>
   (PubResume pid tp a \<in> set (immediates (step re s)) \<longrightarrow>
      PubResume pid tp a \<in> set (immediates s) \<or> length (promises s) \<le> pid)"
proof (cases "immediates s")
  case Nil
  then show ?thesis by (simp add: step_def)
next
  case (Cons t ts)
  show ?thesis
  proof (cases t)
    case (PubResume pid' tp' a')
    with Cons show ?thesis
      by (cases "filterSubs re (subscriptions s) tp'")
        (auto simp: step_def process_def resumePub_def Let_def prim_defs split: if_splits)
  next
    case (CallbackResume pid' tp' a' m')
    with Cons resumeCallback_resume [where re = re and pid = pid' and tp = tp' and ar = a'
        and m = m' and s = "s\<lparr>immediates := ts\<rparr>" and p = pid and tp' = tp and a' = a]
    show ?thesis by (auto simp: step_def process_def)
  next
    case (ScriptResume ow sc)
    with Cons grows_resume [OF exec_grows [of "s\<lparr>immediates := ts\<rparr>" re ow False sc], of pid tp a]
      grows_length [OF exec_grows [of "s\<lparr>immediates := ts\<rparr>" re ow False sc]]
    show ?thesis by (auto simp: step_def process_def)
  qed
qed

lemma run_resume:
  "length (promises s) \<le> length (promises (run re j s)) \<and>
   (PubResume pid tp a \<in> set (immediates (run re j s)) \<longrightarrow>
      PubResume pid tp a \<in> set (immediates s) \<or> length (promises s) \<le> pid)"
proof (induction j)
  case 0
  then show ?case by simp
next
  case (Suc j)
  from step_resume [of "run re j s" re pid tp a] Suc show ?case
    by (auto simp only: run_step)
qed

lemma called_unique:
  assumes "called re main n pid tp a" and "called re main n pid tp' a'"
  shows "tp = tp' \<and> a = a'"
proof -
  have one: "tp1 = tp2 \<and> a1 = a2"
    if "k \<le> k'" and 1: "PubResume pid tp1 a1 \<in> set (immediates (run re k (start re main)))"
      and 2: "PubResume pid tp2 a2 \<in> set (immediates (run re k' (start re main)))"
    for k k' tp1 a1 tp2 a2
  proof -
    let ?s = "run re k (start re main)"
    from reachable_sound [of re k main] have c: "consistent ?s" by simp
    from that(1) have "run re k' (start re main) = run re (k' - k) ?s"
      using run_add [of re k "k' - k" "start re main"] by simp
    with 2 run_resume [of ?s re "k' - k" pid tp2 a2]
    have "PubResume pid tp2 a2 \<in> set (immediates ?s) \<or> length (promises ?s) \<le> pid" by simp
    with queue_resume_bound [OF c 1] have "PubResume pid tp2 a2 \<in> set (immediates ?s)" by auto
    with c 1 show ?thesis by (rule queue_resume_unique)
  qed
  from assms obtain k k' where k: "PubResume pid tp a \<in> set (immediates (run re k (start re main)))"
    and k': "PubResume pid tp' a' \<in> set (immediates (run re k' (start re main)))"
    by (auto simp: called_def)
  show ?thesis
  proof (cases "k \<le> k'")
    case True
    from one [OF True k k'] show ?thesis .
  next
    case False
    then have "k' \<le> k" by simp
    from one [OF this k' k] show ?thesis by simp
  qed
qed

lemma announced_mono:
  assumes "announced s"
    and "\<And>pid tp a. PubResume pid tp a \<in> set (immediates s') \<Longrightarrow> PubResume pid tp a \<in> set (immediates s)"
    and "set (trace s) \<subseteq> set (trace s')"
  shows "announced s'"
  using assms unfolding announced_def by blast

lemma announced_settle: "announced s \<Longrightarrow> announced (settle ow ok s)"
  by (erule announced_mono) (auto simp: settle_def emit_def split: owner.splits if_splits)

lemma announced_raise: "announced s \<Longrightarrow> announced (fst (raise ow sync s))"
  by (simp add: raise_def announced_settle)

lemma announced_emit: "announced s \<Longrightarrow> announced (emit e s)"
  by (erule announced_mono) auto

lemma exec_announced: "announced s \<Longrightarrow> announced (fst (exec re ow sync sc s))"
proof (induction re ow sync sc s rule: exec.induct)
  case (1 re ow sync s)
  then show ?case by (simp add: announced_settle)
next
  case (2 re ow sync s)
  then show ?case by (simp add: announced_raise)
next
  case (3 re ow sync rest s)
  then show ?case by (auto simp: setImmediate_def elim: announced_mono)
next
  case (4 re ow sync rest s)
  then show ?case by (simp add: announced_emit)
next
  case (5 re ow sync tp h oc rest s)
  show ?case
  proof (cases "new_BasePathMatcher tp")
    case (Inl e)
    with 5 show ?thesis by (simp add: announced_raise announced_emit)
  next
    case (Inr M)
    from 5(2) have "announced (addSubscription tp M h oc s)"
      by (rule announced_mono) (auto simp: addSubscription_def emit_def)
    with 5 Inr show ?thesis by simp
  qed
next
  case (6 re ow sync tp rest s)
  show ?case
  proof (cases "filterSubs re (subscriptions s) tp")
    case (Inl e)
    with 6 show ?thesis by (simp add: announced_raise)
  next
    case (Inr ms)
    from 6(2) have "announced (fold (\<lambda>m. deleteSubscription (subscription m)) ms s)"
      by (rule announced_mono) simp_all
    with 6 Inr show ?thesis by simp
  qed
next
  case (7 re ow sync tp a rest s)
  from 7(2) have "announced (callPub tp a s)"
    by (auto simp: announced_def callPub_def setImmediate_def emit_def)
  with 7 show ?case by simp
qed

lemma resumeCallback_announced:
  assumes "announced s"
  shows "announced (resumeCallback re pid tp ar m s)"
proof -
  obtain isAsync body where h: "handler (subscription m) = Handler isAsync body"
    by (cases "handler (subscription m)")
  define s1 where
    "s1 = emit (Invoked pid (ident (subscription m)) (fullArgs ar m tp)) s"
  define s2 where "s2 = fst (exec re (Invocation pid (ident (subscription m))) (\<not> isAsync) body s1)"
  have "announced s1"
    using assms by (rule announced_mono) (auto simp: s1_def)
  then have 2: "announced s2" unfolding s2_def by (rule exec_announced)
  then have 3: "announced (deleteSubscription (subscription m) s2)"
    by (rule announced_mono) simp_all
  have endF: "announced (callbackFulfilled pid x)" if "announced x" for x
  proof -
    from callback_end_trace(1) [of pid x] obtain evs where
      "trace (callbackFulfilled pid x) = trace x @ evs" by blast
    with that show ?thesis by (elim announced_mono) simp_all
  qed
  have endR: "announced (callbackRejected pid i x)" if "announced x" for x i
  proof -
    from callback_end_trace(2) [of pid i x] obtain evs where
      "trace (callbackRejected pid i x) = trace x @ evs" by blast
    with that show ?thesis by (elim announced_mono) simp_all
  qed
  show ?thesis
    using endF [OF 2] endF [OF 3] endR [OF 2]
    by (simp add: resumeCallback_unfold [OF h] Let_def s1_def [symmetric] s2_def [symmetric])
qed

lemma step_announced:
  assumes l: "announced s"
  shows "announced (step re s)"
proof (cases "immediates s")
  case Nil
  with l show ?thesis by (simp add: step_def)
next
  case (Cons t ts)
  from l have l': "announced (s\<lparr>immediates := ts\<rparr>)"
    by (rule announced_mono) (simp_all add: Cons)
  show ?thesis
  proof (cases t)
    case (PubResume pid tp a)
    let ?x = "s\<lparr>immediates := ts\<rparr>"
    have tr: "set (trace ?x) \<subseteq> set (trace (resumePub re pid tp a ?x))"
      by (cases "filterSubs re (subscriptions s) tp") (auto simp: resumePub_def Let_def prim_defs)
    have q: "PubResume p t b \<in> set (immediates (resumePub re pid tp a ?x)) \<Longrightarrow>
        PubResume p t b \<in> set (immediates ?x)" for p t b
      by (cases "filterSubs re (subscriptions s) tp")
        (auto simp: resumePub_def Let_def prim_defs split: if_splits)
    from l' q tr have "announced (resumePub re pid tp a ?x)" by (rule announced_mono)
    with Cons PubResume show ?thesis by (simp add: step_def process_def)
  next
    case (CallbackResume pid tp a m)
    with Cons l' show ?thesis by (simp add: step_def process_def resumeCallback_announced)
  next
    case (ScriptResume ow sc)
    with Cons l' show ?thesis by (simp add: step_def process_def exec_announced)
  qed
qed

lemma reachable_announced: "announced (run re n (start re main))"
proof -
  have "announced initialState" by (simp add: announced_def initialState_def)
  then have "announced (start re main)" unfolding start_def by (rule exec_announced)
  moreover have "announced s \<Longrightarrow> announced (run re n s)" for s
    by (induction n arbitrary: s) (simp_all add: step_announced)
  ultimately show ?thesis by blast
qed

lemma called_announced:
  assumes "called re main n pid tp a"
  shows "PubCalled pid tp \<in> set (trace (run re n (start re main)))"
proof -
  from assms obtain k where k: "k \<le> n"
    and q: "PubResume pid tp a \<in> set (immediates (run re k (start re main)))"
    by (auto simp: called_def)
  define sk where "sk = run re k (start re main)"
  from q reachable_announced [of re k main] have here: "PubCalled pid tp \<in> set (trace sk)"
    unfolding announced_def sk_def by blast
  from k have "k + (n - k) = n" by simp
  with run_add [of re k "n - k" "start re main"]
  have eq: "run re n (start re main) = run re (n - k) sk" by (simp only: sk_def)
  from run_trace [of re "n - k" sk] obtain evs where "trace (run re (n - k) sk) = trace sk @ evs"
    by blast
  with here show ?thesis by (simp only: eq set_append Un_iff) simp
qed

lemma invoked_args:
  assumes s: "s = run re n (start re main)"
    and inv: "Invoked pid sid got \<in> set (trace s)"
    and call: "called re main n pid tp a"
    and sub: "Subscribed sid pat \<in> set (trace s)"
  shows "PubCalled pid tp \<in> set (trace s) \<and>
         (\<exists>M r. new_BasePathMatcher pat = Inr M \<and> match re M tp = Inr r \<and> matched r \<and>
           (\<forall>k. got k =
              (if k = ''topic'' then Some (Str tp)
               else if k = ''_'' then Some (StrList (wildcard r))
               else (case params r k of Some v \<Rightarrow> Some v | None \<Rightarrow> a k))))"
proof -
  from reachable_explained [of re main n] inv obtain tp' a' m where
    c': "called re main n pid tp' a'" and so: "sourced re s tp' m"
    and sid: "ident (subscription m) = sid" and got: "got = fullArgs a' m tp'"
    unfolding explained_def s by blast
  from called_unique [OF call c'] have eq: "tp' = tp" "a' = a" by simp_all
  from so have cr: "created s (subscription m)" and mo: "matchOf re tp m"
    by (simp_all add: sourced_def eq)
  from cr sid have "Subscribed sid (topic (subscription m)) \<in> set (trace s)"
    by (simp add: created_def)
  with sub reachable_numbered [of re n main] have pat: "topic (subscription m) = pat"
    unfolding numbered_def s by blast
  from cr pat have M: "new_BasePathMatcher pat = Inr (matcher (subscription m))"
    by (simp add: created_def)
  from mo obtain r where r: "match re (matcher (subscription m)) tp = Inr r" "matched r"
    "capturedParams m = Some (params r)" "capturedWildcard m = Some (wildcard r)"
    by (auto simp: matchOf_def split: sum.splits)
  have "got k =
      (if k = ''topic'' then Some (Str tp)
       else if k = ''_'' then Some (StrList (wildcard r))
       else (case params r k of Some v \<Rightarrow> Some v | None \<Rightarrow> a k))" for k
    by (auto simp: got eq fullArgs_def r map_add_def split: option.splits)
  with M r(1,2) called_announced [OF call] show ?thesis unfolding s by blast
qed

section \<open>Evaluation of the event loop on concrete programs\<close>

lemma run_numeral: "run re (numeral k) s = run re (pred_numeral k) (step re s)"
  by (simp add: numeral_eq_Suc)

lemmas loop_eval =
  run_numeral start_def initialState_def step_def process_def resumePub_def resumeCallback_def
  filterSubs_def subscriptionMatch_def fullArgs_def callbackFulfilled_def callbackRejected_def
  promiseOf_def prim_defs ctor_eval parse_eval match_eval str_eval Let_def

section \<open>C1: when a publish returns\<close>

text \<open>
  C1, as the code has it. With a handler that awaits a tick, the second turn of the event
  loop calls the handler, decrements the counter and fulfils the promise of the publish,
  while the rest of the handler still waits in the queue: the handler settles one turn later.
\<close>

theorem publish_returns_before_handler_settles:
  "trace (run hostRegExp 2 (start hostRegExp awaitingHandler)) =
     [Subscribed 0 ''/t'', PubCalled 0 ''/t'', Settled Main True, Selected 0 [0],
      Invoked 0 0 [''_'' \<mapsto> StrList [], ''topic'' \<mapsto> Str ''/t''],
      Decremented 0, PubFulfilled 0] \<and>
   promises (run hostRegExp 2 (start hostRegExp awaitingHandler)) = [Fulfilled] \<and>
   inflightCount (run hostRegExp 2 (start hostRegExp awaitingHandler)) = 0 \<and>
   immediates (run hostRegExp 2 (start hostRegExp awaitingHandler)) =
     [ScriptResume (Invocation 0 0) Return] \<and>
   trace (run hostRegExp 3 (start hostRegExp awaitingHandler)) =
     [Subscribed 0 ''/t'', PubCalled 0 ''/t'', Settled Main True, Selected 0 [0],
      Invoked 0 0 [''_'' \<mapsto> StrList [], ''topic'' \<mapsto> Str ''/t''],
      Decremented 0, PubFulfilled 0, Settled (Invocation 0 0) True]"
  by (simp add: awaitingHandler_def loop_eval)

text \<open>
  C1, amended. In every state the program reaches, the decrement of the counter and the
  return of a publish come, in the order of events, after the call of the handler of every
  subscription selected for that publish: \<^verbatim>\<open>pub\<close> waits for the calls of the handlers,
  not for the promises they return.
\<close>

theorem publish_returns_after_handlers_invoked:
  assumes "s = run re n (start re main)"
    and "Selected pid sel \<in> set (trace s)" and "sid \<in> set sel"
  shows "(Decremented pid \<in> set (trace s) \<longrightarrow> calledBefore (trace s) pid sid (Decremented pid)) \<and>
         (PubFulfilled pid \<in> set (trace s) \<longrightarrow> calledBefore (trace s) pid sid (PubFulfilled pid))"
proof -
  from assms(2,3) have "selectedIn s pid sid" by (auto simp: selectedIn_def)
  with reachable_callsFirst [of re n main] show ?thesis
    unfolding callsFirst_def assms(1) by blast
qed

theorem publish_returns_after_handlers_invoked_witness:
  "Selected 0 [0, 1] \<in> set (trace (run hostRegExp 3 (start hostRegExp failingHandler))) \<and>
   (1::nat) \<in> set [0, 1] \<and>
   Decremented 0 \<in> set (trace (run hostRegExp 3 (start hostRegExp failingHandler))) \<and>
   PubFulfilled 0 \<in> set (trace (run hostRegExp 3 (start hostRegExp failingHandler))) \<and>
   calledBefore (trace (run hostRegExp 3 (start hostRegExp failingHandler))) 0 1 (Decremented 0) \<and>
   calledBefore (trace (run hostRegExp 3 (start hostRegExp failingHandler))) 0 1 (PubFulfilled 0)"
proof -
  have tr: "trace (run hostRegExp 3 (start hostRegExp failingHandler)) =
     [Subscribed 0 ''/t'', Subscribed 1 ''/t'', PubCalled 0 ''/t'', Settled Main True,
      Selected 0 [0, 1],
      Invoked 0 0 [''_'' \<mapsto> StrList [], ''topic'' \<mapsto> Str ''/t''],
      Settled (Invocation 0 0) False, ErrorLogged 0 0,
      Invoked 0 1 [''_'' \<mapsto> StrList [], ''topic'' \<mapsto> Str ''/t''],
      Settled (Invocation 0 1) True, Decremented 0, PubFulfilled 0]"
    by (simp add: failingHandler_def loop_eval)
  have sel: "Selected 0 [0, 1] \<in> set (trace (run hostRegExp 3 (start hostRegExp failingHandler)))"
    by (simp add: tr)
  have mem: "(1::nat) \<in> set [0, 1]" by simp
  have dec: "Decremented 0 \<in> set (trace (run hostRegExp 3 (start hostRegExp failingHandler)))"
    and ful: "PubFulfilled 0 \<in> set (trace (run hostRegExp 3 (start hostRegExp failingHandler)))"
    by (simp_all add: tr)
  from publish_returns_after_handlers_invoked [OF refl sel mem] sel mem dec ful
  show ?thesis by simp
qed

section \<open>C2: the in-flight counter\<close>

lemma inProgress_unfulfilled: "length (filter inProgress ps) \<le> unfulfilled ps"
proof (induction ps)
  case Nil
  then show ?case by (simp add: unfulfilled_def)
next
  case (Cons p ps)
  then show ?case by (cases p) (simp_all add: unfulfilled_def)
qed

text \<open>
  C2, on the code. A publish that rejects never decrements the counter. With a handler that
  throws when it is called, the counter is 0 before the publish and 1 right after the
  call; the publish is rejected in the third turn of the event loop, and when the queue is empty the counter
  still reads 1. The same happens when \<^verbatim>\<open>filterSubs\<close> throws: the decrement is the last
  statement of \<^verbatim>\<open>pub\<close>, outside any \<^verbatim>\<open>finally\<close>. A publish that is fulfilled,
  here one whose \<^verbatim>\<open>async\<close> handler fails, does bring the counter back to 0.
\<close>

theorem rejected_publish_never_decrements:
  "trace (run hostRegExp 5 (start hostRegExp rejectedPublish)) =
     [Subscribed 0 ''/t'', Observed Main 0, PubCalled 0 ''/t'', Observed Main 1, Selected 0 [0],
      Invoked 0 0 [''_'' \<mapsto> StrList [], ''topic'' \<mapsto> Str ''/t''],
      PubRejected 0 (HandlerThrew 0), Observed Main 1, Settled Main True] \<and>
   promises (run hostRegExp 5 (start hostRegExp rejectedPublish)) = [Rejected (HandlerThrew 0)] \<and>
   inflightCount (run hostRegExp 5 (start hostRegExp rejectedPublish)) = 1 \<and>
   immediates (run hostRegExp 5 (start hostRegExp rejectedPublish)) = [] \<and>
   promises (run hostRegExp 1 (start hostRegExp poisonedRegistry)) =
     [Rejected (MatchFailed (InvalidRegExp ''z-a''))] \<and>
   inflightCount (run hostRegExp 1 (start hostRegExp poisonedRegistry)) = 1 \<and>
   immediates (run hostRegExp 1 (start hostRegExp poisonedRegistry)) = [] \<and>
   promises (run hostRegExp 3 (start hostRegExp failingHandler)) = [Fulfilled] \<and>
   inflightCount (run hostRegExp 3 (start hostRegExp failingHandler)) = 0 \<and>
   immediates (run hostRegExp 3 (start hostRegExp failingHandler)) = []"
  by (simp add: rejectedPublish_def poisonedRegistry_def failingHandler_def loop_eval)

text \<open>
  What the counter does count. The call of \<^verbatim>\<open>pub\<close> increments the counter before it
  returns to its caller, so a read of \<^verbatim>\<open>inFlight\<close> right after the call sees the
  increment. In every state the program reaches, the counter is the number of publishes
  that were called and have not been fulfilled: each publish adds one from its call to its
  normal return, and a rejected one for ever. So the counter is at least the number of
  publishes between their increment and their decrement, and it is back at its initial
  value, zero, when every publish has been fulfilled.
\<close>

theorem inflight_accounting:
  "inflightCount (callPub tp a s) = inflightCount s + 1 \<and>
   exec re ow sync (Pub tp a (ReadInFlight rest)) s =
     exec re ow sync rest (emit (Observed ow (inflightCount s + 1)) (callPub tp a s)) \<and>
   inflightCount (run re n (start re main)) =
     int (unfulfilled (promises (run re n (start re main)))) \<and>
   int (length (filter inProgress (promises (run re n (start re main))))) \<le>
     inflightCount (run re n (start re main)) \<and>
   ((\<forall>p \<in> set (promises (run re n (start re main))). p = Fulfilled) \<longrightarrow>
      inflightCount (run re n (start re main)) = 0)"
proof (intro conjI impI)
  show inc: "inflightCount (callPub tp a s) = inflightCount s + 1"
    by (simp add: callPub_def emit_def setImmediate_def)
  show "exec re ow sync (Pub tp a (ReadInFlight rest)) s =
     exec re ow sync rest (emit (Observed ow (inflightCount s + 1)) (callPub tp a s))"
    by (simp add: inc)
  show acc: "inflightCount (run re n (start re main)) =
     int (unfulfilled (promises (run re n (start re main))))"
    using reachable_sound [of re n main] by (simp add: accounted_def)
  show "int (length (filter inProgress (promises (run re n (start re main))))) \<le>
     inflightCount (run re n (start re main))"
    using inProgress_unfulfilled [of "promises (run re n (start re main))"] acc by simp
  show "inflightCount (run re n (start re main)) = 0"
    if "\<forall>p \<in> set (promises (run re n (start re main))). p = Fulfilled"
  proof -
    from that have "filter (\<lambda>p. p \<noteq> Fulfilled) (promises (run re n (start re main))) = []"
      by (simp add: filter_empty_conv)
    with acc show ?thesis by (simp add: unfulfilled_def)
  qed
qed

theorem inflight_accounting_witness:
  "trace (start hostRegExp overlappingPublishes) =
     [PubCalled 0 ''/t'', Observed Main 1, PubCalled 1 ''/t'', Observed Main 2] \<and>
   promises (start hostRegExp overlappingPublishes) = [Started, Started] \<and>
   inflightCount (start hostRegExp overlappingPublishes) = 2 \<and>
   promises (run hostRegExp 4 (start hostRegExp overlappingPublishes)) = [Fulfilled, Fulfilled] \<and>
   inflightCount (run hostRegExp 4 (start hostRegExp overlappingPublishes)) = 0 \<and>
   trace (run hostRegExp 4 (start hostRegExp overlappingPublishes)) =
     [PubCalled 0 ''/t'', Observed Main 1, PubCalled 1 ''/t'', Observed Main 2,
      Selected 0 [], Decremented 0, PubFulfilled 0, Selected 1 [], Decremented 1, PubFulfilled 1,
      Observed Main 0, Settled Main True]"
proof -
  have p0: "promises (start hostRegExp overlappingPublishes) = [Started, Started]"
    and t0: "trace (start hostRegExp overlappingPublishes) =
      [PubCalled 0 ''/t'', Observed Main 1, PubCalled 1 ''/t'', Observed Main 2]"
    by (simp_all add: overlappingPublishes_def loop_eval)
  have p4: "promises (run hostRegExp 4 (start hostRegExp overlappingPublishes)) =
      [Fulfilled, Fulfilled]"
    and t4: "trace (run hostRegExp 4 (start hostRegExp overlappingPublishes)) =
     [PubCalled 0 ''/t'', Observed Main 1, PubCalled 1 ''/t'', Observed Main 2,
      Selected 0 [], Decremented 0, PubFulfilled 0, Selected 1 [], Decremented 1, PubFulfilled 1,
      Observed Main 0, Settled Main True]"
    by (simp_all add: overlappingPublishes_def loop_eval)
  have "inflightCount (run hostRegExp 0 (start hostRegExp overlappingPublishes)) = 2"
    using inflight_accounting [of _ _ _ hostRegExp _ _ _ 0 overlappingPublishes] p0
    by (simp add: unfulfilled_def)
  moreover have "inflightCount (run hostRegExp 4 (start hostRegExp overlappingPublishes)) = 0"
    using inflight_accounting [of _ _ _ hostRegExp _ _ _ 4 overlappingPublishes] p4
    by (simp add: unfulfilled_def)
  ultimately show ?thesis using p0 t0 p4 t4 by simp
qed

section \<open>C3: which subscriptions a publish reaches\<close>




section \<open>C4: once subscriptions\<close>

text \<open>
  C4, on the code. Two publishes issued back to back both take their snapshot of the
  registry before either callback has run, so both select the \<^verbatim>\<open>once\<close> subscription:
  its handler is called twice, and the subscription is deleted only after the first call.
\<close>

theorem once_handler_invoked_twice:
  "trace (run hostRegExp 4 (start hostRegExp onceTwice)) =
     [Subscribed 0 ''/t'', PubCalled 0 ''/t'', PubCalled 1 ''/t'', Settled Main True,
      Selected 0 [0], Selected 1 [0],
      Invoked 0 0 [''_'' \<mapsto> StrList [], ''topic'' \<mapsto> Str ''/t''],
      Settled (Invocation 0 0) True, Decremented 0, PubFulfilled 0,
      Invoked 1 0 [''_'' \<mapsto> StrList [], ''topic'' \<mapsto> Str ''/t''],
      Settled (Invocation 1 0) True, Decremented 1, PubFulfilled 1] \<and>
   calls (trace (run hostRegExp 4 (start hostRegExp onceTwice))) = [(0, 0), (1, 0)] \<and>
   subscriptions (run hostRegExp 3 (start hostRegExp onceTwice)) = [] \<and>
   subscriptions (run hostRegExp 4 (start hostRegExp onceTwice)) = []"
  by (simp add: onceTwice_def loop_eval)

section \<open>C5: the args a handler receives\<close>

text \<open>
  C5, as the code has it. For the pattern \<^verbatim>\<open>/arg/:test1/:test2/**\<close> and the publish of
  \<^verbatim>\<open>/arg/A/B/C/D\<close>, the \<^verbatim>\<open>topic\<close> the handler receives is the string that was published,
  not its normalization \<^verbatim>\<open>/arg/a/b/c/d\<close>.
\<close>

theorem handler_receives_topic_as_published:
  "map (\<lambda>a. a ''topic'') (received (trace (run hostRegExp 2 (start hostRegExp argsProgram)))) =
     [Some (Str ''/arg/A/B/C/D'')]"
  by (simp add: argsProgram_def loop_eval)

text \<open>
  C5, amended. Whenever a handler is called, in any state the program reaches: the call
  belongs to the call \<^verbatim>\<open>pub(tp, a)\<close> with its number, recorded with the topic \<open>tp\<close>,
  and to the subscription with its identity, made with some pattern; that pattern compiles,
  matching \<open>tp\<close> against it succeeds, and the args the handler receives are composed
  with precedence, lowest first: the user-supplied keys of \<open>a\<close>, the captured named
  params, then the reserved keys \<^verbatim>\<open>_\<close>, the captured wildcard list, and \<^verbatim>\<open>topic\<close>,
  which is \<open>tp\<close> as it was passed to \<^verbatim>\<open>pub\<close>. For the pattern \<^verbatim>\<open>/arg/:test1/:test2/**\<close> and
  \<^verbatim>\<open>pub("/arg/A/B/C/D", { test5: "v" })\<close> the handler receives exactly
  \<^verbatim>\<open>{ topic: "/arg/A/B/C/D", test1: "a", test2: "b", _: ["c","d"], test5: "v" }\<close>.
\<close>

theorem args_precedence:
  "(Invoked pid sid got \<in> set (trace (run re n (start re main))) \<longrightarrow>
    called re main n pid tp a \<longrightarrow>
    Subscribed sid pat \<in> set (trace (run re n (start re main))) \<longrightarrow>
      PubCalled pid tp \<in> set (trace (run re n (start re main))) \<and>
      (\<exists>M r. new_BasePathMatcher pat = Inr M \<and> match re M tp = Inr r \<and> matched r \<and>
         (\<forall>k. got k =
            (if k = ''topic'' then Some (Str tp)
             else if k = ''_'' then Some (StrList (wildcard r))
             else (case params r k of Some v \<Rightarrow> Some v | None \<Rightarrow> a k))))) \<and>
   received (trace (run hostRegExp 2 (start hostRegExp argsProgram))) =
     [[''test5'' \<mapsto> Str ''v'', ''test1'' \<mapsto> Str ''a'', ''test2'' \<mapsto> Str ''b'',
       ''_'' \<mapsto> StrList [''c'', ''d''], ''topic'' \<mapsto> Str ''/arg/A/B/C/D'']]"
proof (rule conjI, intro impI)
  show "PubCalled pid tp \<in> set (trace (run re n (start re main))) \<and>
      (\<exists>M r. new_BasePathMatcher pat = Inr M \<and> match re M tp = Inr r \<and> matched r \<and>
         (\<forall>k. got k =
            (if k = ''topic'' then Some (Str tp)
             else if k = ''_'' then Some (StrList (wildcard r))
             else (case params r k of Some v \<Rightarrow> Some v | None \<Rightarrow> a k))))"
    if "Invoked pid sid got \<in> set (trace (run re n (start re main)))"
      and "called re main n pid tp a"
      and "Subscribed sid pat \<in> set (trace (run re n (start re main)))"
    using refl that by (rule invoked_args)
  show "received (trace (run hostRegExp 2 (start hostRegExp argsProgram))) =
     [[''test5'' \<mapsto> Str ''v'', ''test1'' \<mapsto> Str ''a'', ''test2'' \<mapsto> Str ''b'',
       ''_'' \<mapsto> StrList [''c'', ''d''], ''topic'' \<mapsto> Str ''/arg/A/B/C/D'']]"
    by (simp add: argsProgram_def loop_eval)
qed

theorem args_precedence_witness:
  "Invoked 0 0
     [''test5'' \<mapsto> Str ''v'', ''test1'' \<mapsto> Str ''a'', ''test2'' \<mapsto> Str ''b'',
      ''_'' \<mapsto> StrList [''c'', ''d''], ''topic'' \<mapsto> Str ''/arg/A/B/C/D'']
     \<in> set (trace (run hostRegExp 2 (start hostRegExp collidingArgs))) \<and>
   called hostRegExp collidingArgs 2 0 ''/arg/A/B/C/D''
     [''test5'' \<mapsto> Str ''v'', ''test1'' \<mapsto> Str ''user'', ''topic'' \<mapsto> Str ''mine'',
      ''_'' \<mapsto> Str ''x''] \<and>
   Subscribed 0 ''/arg/:test1/:test2/**''
     \<in> set (trace (run hostRegExp 2 (start hostRegExp collidingArgs))) \<and>
   PubCalled 0 ''/arg/A/B/C/D'' \<in> set (trace (run hostRegExp 2 (start hostRegExp collidingArgs))) \<and>
   new_BasePathMatcher ''/arg/:test1/:test2/**'' = Inr argMatcher \<and>
   match hostRegExp argMatcher ''/arg/A/B/C/D'' =
     Inr \<lparr>path = ''/arg/a/b/c/d'', params = [''test1'' \<mapsto> Str ''a'', ''test2'' \<mapsto> Str ''b''],
          wildcard = [''c'', ''d''], matched = True\<rparr> \<and>
   [''test5'' \<mapsto> Str ''v'', ''test1'' \<mapsto> Str ''a'', ''test2'' \<mapsto> Str ''b'',
    ''_'' \<mapsto> StrList [''c'', ''d''], ''topic'' \<mapsto> Str ''/arg/A/B/C/D''] =
     [''test5'' \<mapsto> Str ''v'', ''test1'' \<mapsto> Str ''user'', ''topic'' \<mapsto> Str ''mine'',
      ''_'' \<mapsto> Str ''x''] ++
     [''test1'' \<mapsto> Str ''a'', ''test2'' \<mapsto> Str ''b''] ++
     [''_'' \<mapsto> StrList [''c'', ''d''], ''topic'' \<mapsto> Str ''/arg/A/B/C/D'']"
proof -
  let ?got = "[''test5'' \<mapsto> Str ''v'', ''test1'' \<mapsto> Str ''a'', ''test2'' \<mapsto> Str ''b'',
      ''_'' \<mapsto> StrList [''c'', ''d''], ''topic'' \<mapsto> Str ''/arg/A/B/C/D'']"
  let ?user = "[''test5'' \<mapsto> Str ''v'', ''test1'' \<mapsto> Str ''user'', ''topic'' \<mapsto> Str ''mine'',
      ''_'' \<mapsto> Str ''x'']"
  let ?r = "\<lparr>path = ''/arg/a/b/c/d'', params = [''test1'' \<mapsto> Str ''a'', ''test2'' \<mapsto> Str ''b''],
          wildcard = [''c'', ''d''], matched = True\<rparr>"
  have tr: "trace (run hostRegExp 2 (start hostRegExp collidingArgs)) =
      [Subscribed 0 ''/arg/:test1/:test2/**'', PubCalled 0 ''/arg/A/B/C/D'', Settled Main True,
       Selected 0 [0], Invoked 0 0 ?got, Settled (Invocation 0 0) True, Decremented 0,
       PubFulfilled 0]"
    by (simp add: collidingArgs_def loop_eval)
  have inv: "Invoked 0 0 ?got \<in> set (trace (run hostRegExp 2 (start hostRegExp collidingArgs)))"
    by (simp add: tr)
  have sub: "Subscribed 0 ''/arg/:test1/:test2/**''
      \<in> set (trace (run hostRegExp 2 (start hostRegExp collidingArgs)))"
    by (simp add: tr)
  have "PubResume 0 ''/arg/A/B/C/D'' ?user
      \<in> set (immediates (run hostRegExp 0 (start hostRegExp collidingArgs)))"
    by (simp add: collidingArgs_def loop_eval)
  then have call: "called hostRegExp collidingArgs 2 0 ''/arg/A/B/C/D'' ?user"
    unfolding called_def by (intro exI [of _ 0]) simp
  have M0: "new_BasePathMatcher ''/arg/:test1/:test2/**'' = Inr argMatcher"
    by (simp add: ctor_eval parse_eval str_eval concrete_patterns argMatcher_def)
  have r0: "match hostRegExp argMatcher ''/arg/A/B/C/D'' = Inr ?r"
    by (simp add: argMatcher_def match_eval str_eval concrete_patterns)
  from args_precedence [of 0 0 ?got hostRegExp 2 collidingArgs "''/arg/A/B/C/D''" ?user
      "''/arg/:test1/:test2/**''"] inv call sub
  obtain M r where
    pc: "PubCalled 0 ''/arg/A/B/C/D'' \<in> set (trace (run hostRegExp 2 (start hostRegExp collidingArgs)))"
    and M: "new_BasePathMatcher ''/arg/:test1/:test2/**'' = Inr M"
    and r: "match hostRegExp M ''/arg/A/B/C/D'' = Inr r"
    and got: "\<And>k. ?got k =
            (if k = ''topic'' then Some (Str ''/arg/A/B/C/D'')
             else if k = ''_'' then Some (StrList (wildcard r))
             else (case params r k of Some v \<Rightarrow> Some v | None \<Rightarrow> ?user k))"
    by blast
  from M M0 have "M = argMatcher" by simp
  with r r0 have req: "r = ?r" by simp
  have "?got = ?user ++ [''test1'' \<mapsto> Str ''a'', ''test2'' \<mapsto> Str ''b''] ++
     [''_'' \<mapsto> StrList [''c'', ''d''], ''topic'' \<mapsto> Str ''/arg/A/B/C/D'']"
  proof (rule ext)
    fix k
    show "?got k = (?user ++ [''test1'' \<mapsto> Str ''a'', ''test2'' \<mapsto> Str ''b''] ++
     [''_'' \<mapsto> StrList [''c'', ''d''], ''topic'' \<mapsto> Str ''/arg/A/B/C/D'']) k"
      by (simp only: got [of k] req) (simp add: map_add_def)
  qed
  with inv call sub pc M0 r0 show ?thesis by (intro conjI)
qed

section \<open>C6: the memo of a subscription\<close>

text \<open>
  C6, on the code. \<^verbatim>\<open>filterSubs\<close> reads \<^verbatim>\<open>matchedTopics\<close> and nothing ever writes
  it: in every state the program reaches, the memo of every subscription in the registry
  is empty, so every publish matches the topic against the pattern again.
\<close>

theorem memo_never_stored:
  "sub \<in> set (subscriptions (run re n (start re main))) \<Longrightarrow> matchedTopics sub = Map.empty"
  using reachable_memoEmpty [of re n main] by (simp add: memoEmpty_def)

theorem memo_never_stored_witness:
  "subscriptions (run hostRegExp 6 (start hostRegExp publishTwice)) =
     [\<lparr>ident = 0, topic = ''/a'',
       matcher = \<lparr>matchers = [staticSegment ''a''], pattern = ''/a'', isRoot = False\<rparr>,
       handler = Handler True Return, once = False, matchedTopics = Map.empty\<rparr>] \<and>
   calls (trace (run hostRegExp 6 (start hostRegExp publishTwice))) = [(0, 0), (1, 0)] \<and>
   matchedTopics
     \<lparr>ident = 0, topic = ''/a'',
      matcher = \<lparr>matchers = [staticSegment ''a''], pattern = ''/a'', isRoot = False\<rparr>,
      handler = Handler True Return, once = False, matchedTopics = Map.empty\<rparr> = Map.empty"
proof -
  have subs: "subscriptions (run hostRegExp 6 (start hostRegExp publishTwice)) =
     [\<lparr>ident = 0, topic = ''/a'',
       matcher = \<lparr>matchers = [staticSegment ''a''], pattern = ''/a'', isRoot = False\<rparr>,
       handler = Handler True Return, once = False, matchedTopics = Map.empty\<rparr>]"
    and cs: "calls (trace (run hostRegExp 6 (start hostRegExp publishTwice))) = [(0, 0), (1, 0)]"
    by (simp_all add: publishTwice_def loop_eval concrete_patterns)
  have "\<lparr>ident = 0, topic = ''/a'',
       matcher = \<lparr>matchers = [staticSegment ''a''], pattern = ''/a'', isRoot = False\<rparr>,
       handler = Handler True Return, once = False, matchedTopics = Map.empty\<rparr>
      \<in> set (subscriptions (run hostRegExp 6 (start hostRegExp publishTwice)))"
    by (simp add: subs)
  from memo_never_stored [OF this] subs cs show ?thesis by simp
qed

section \<open>C7: a handler that fails\<close>

text \<open>
  When every handler is an \<^verbatim>\<open>async\<close> function, so that each call returns a promise: a
  rejection of that promise is logged, no publish is rejected by a handler, and the handler
  of every selected subscription is called whatever the others did.
\<close>

lemma async_handler_failure_isolated:
  assumes "asyncOnly main" and "s = run re n (start re main)"
  shows "(Settled (Invocation pid sid) False \<in> set (trace s) \<longrightarrow> ErrorLogged pid sid \<in> set (trace s)) \<and>
         \<not> handlerRejected s pid \<and>
         (selectedIn s pid sid' \<longrightarrow> invoked (run re (length (immediates s)) s) pid sid')"
proof (intro conjI impI)
  show "ErrorLogged pid sid \<in> set (trace s)" if "Settled (Invocation pid sid) False \<in> set (trace s)"
    using that reachable_logged [of re n main] by (simp add: assms(2) logged_def)
  show "\<not> handlerRejected s pid"
    using reachable_quiet [OF assms(1), of re n] by (simp add: assms(2) quiet_def)
  show "invoked (run re (length (immediates s)) s) pid sid'" if "selectedIn s pid sid'"
    using _ that by (rule selected_runs) (simp add: assms(2) reachable_tracked)
qed

text \<open>
  C7, on the code. A handler that is not \<^verbatim>\<open>async\<close> and throws when it is called: the
  exception leaves the callback of \<^verbatim>\<open>pub\<close> before \<^verbatim>\<open>.catch\<close> is attached, nothing is
  logged, \<^verbatim>\<open>Promise.all\<close> rejects and with it the promise of \<^verbatim>\<open>pub\<close>, and the counter
  is never decremented. The other handler is still called.
\<close>

theorem synchronous_throw_rejects_publish:
  "trace (run hostRegExp 3 (start hostRegExp throwingHandler)) =
     [Subscribed 0 ''/t'', Subscribed 1 ''/t'', PubCalled 0 ''/t'', Settled Main True,
      Selected 0 [0, 1],
      Invoked 0 0 [''_'' \<mapsto> StrList [], ''topic'' \<mapsto> Str ''/t''],
      PubRejected 0 (HandlerThrew 0),
      Invoked 0 1 [''_'' \<mapsto> StrList [], ''topic'' \<mapsto> Str ''/t''],
      Settled (Invocation 0 1) True] \<and>
   promises (run hostRegExp 3 (start hostRegExp throwingHandler)) = [Rejected (HandlerThrew 0)] \<and>
   inflightCount (run hostRegExp 3 (start hostRegExp throwingHandler)) = 1 \<and>
   immediates (run hostRegExp 3 (start hostRegExp throwingHandler)) = []"
  by (simp add: throwingHandler_def loop_eval)

end
